theory Spec2Isabelle
  imports Main "HOL-Library.List_Lexorder"
begin

section \<open>Python strings and the interpreter's built-ins\<close>

text \<open>
  A Python \<open>str\<close> is a sequence of Unicode code points; a code point is a natural
  number. The literals of the source are written as ASCII strings and mapped to their
  code points.
\<close>

type_synonym str = "nat list"

abbreviation (input) lit :: "string \<Rightarrow> str" where
  "lit x \<equiv> map of_char x"

text \<open>
  \<open>str.isspace\<close>, which decides what \<open>str.strip()\<close> removes: the complete list of
  white-space code points of CPython.
\<close>

definition isspace :: "nat \<Rightarrow> bool" where
  "isspace c \<longleftrightarrow>
     (9 \<le> c \<and> c \<le> 13) \<or> (28 \<le> c \<and> c \<le> 32) \<or> c = 133 \<or> c = 160 \<or> c = 5760 \<or>
     (8192 \<le> c \<and> c \<le> 8202) \<or> c = 8232 \<or> c = 8233 \<or> c = 8239 \<or> c = 8287 \<or> c = 12288"

text \<open>
  The values a front-matter mapping holds: a string, an integer, a list of strings, or
  (in the peeker only) a nested mapping. A \<open>dict\<close> keeps its keys in insertion order.
\<close>

datatype val = VStr str | VInt int | VList "str list" | VDict "(str \<times> val) list"

type_synonym dict = "(str \<times> val) list"

datatype error = AttributeError | TypeError | FileNotFoundError

text \<open>
  The character tables behind \<open>str.isalnum\<close> and \<open>str.lower\<close>, the string
  grammar of \<open>int()\<close> and the text \<open>str()\<close> gives for a value that is not a
  string belong to the interpreter, not to the repository: they are a parameter of the
  model. \<open>to_int s = None\<close> stands for \<open>int(s)\<close> raising \<open>ValueError\<close>.
\<close>

record interp =
  isalnum :: "nat \<Rightarrow> bool"
  lower :: "str \<Rightarrow> str"
  to_int :: "str \<Rightarrow> int option"
  repr :: "val \<Rightarrow> str"

text \<open>\<open>str(v)\<close>, which is also what an f-string writes for \<open>{v}\<close>.\<close>

definition py_str :: "interp \<Rightarrow> val \<Rightarrow> str" where
  "py_str py v = (case v of VStr s \<Rightarrow> s | _ \<Rightarrow> repr py v)"

definition lstrip :: "str \<Rightarrow> str" where
  "lstrip s = dropWhile isspace s"

definition rstrip :: "str \<Rightarrow> str" where
  "rstrip s = rev (dropWhile isspace (rev s))"

definition strip :: "str \<Rightarrow> str" where
  "strip s = rstrip (lstrip s)"

definition lstrip_chars :: "str \<Rightarrow> str \<Rightarrow> str" where
  "lstrip_chars cs s = dropWhile (\<lambda>c. c \<in> set cs) s"

definition rstrip_chars :: "str \<Rightarrow> str \<Rightarrow> str" where
  "rstrip_chars cs s = rev (dropWhile (\<lambda>c. c \<in> set cs) (rev s))"

definition strip_chars :: "str \<Rightarrow> str \<Rightarrow> str" where
  "strip_chars cs s = rstrip_chars cs (lstrip_chars cs s)"

definition startswith :: "str \<Rightarrow> str \<Rightarrow> bool" where
  "startswith s p \<longleftrightarrow> take (length p) s = p"

text \<open>\<open>p in s\<close> on strings: \<open>p\<close> occurs in \<open>s\<close> as a substring.\<close>

fun contains :: "str \<Rightarrow> str \<Rightarrow> bool" where
  "contains p [] = (p = [])"
| "contains p (x # xs) = (startswith (x # xs) p \<or> contains p xs)"

text \<open>\<open>d[k] = v\<close> and \<open>d.get(k)\<close>.\<close>

fun dict_set :: "dict \<Rightarrow> str \<Rightarrow> val \<Rightarrow> dict" where
  "dict_set [] k v = [(k, v)]"
| "dict_set (p # ps) k v = (if fst p = k then (k, v) # ps else p # dict_set ps k v)"

definition dict_get :: "dict \<Rightarrow> str \<Rightarrow> val option" where
  "dict_get d k = map_of d k"

text \<open>
  \<open>d.setdefault(k, []).append(v)\<close>: a missing key starts a list, a list grows, and
  any other value has no \<open>append\<close>.
\<close>

definition setdefault_append :: "dict \<Rightarrow> str \<Rightarrow> str \<Rightarrow> error + dict" where
  "setdefault_append d k v =
     (case dict_get d k of
        None \<Rightarrow> Inr (dict_set d k (VList [v]))
      | Some (VList xs) \<Rightarrow> Inr (dict_set d k (VList (xs @ [v])))
      | Some _ \<Rightarrow> Inl AttributeError)"

text \<open>The truth value of an \<open>Optional[str]\<close>: neither \<open>None\<close> nor empty.\<close>

definition truthy :: "str option \<Rightarrow> bool" where
  "truthy k = (case k of None \<Rightarrow> False | Some s \<Rightarrow> s \<noteq> [])"

text \<open>\<open>raw.split(":", 1)\<close> on a string that contains a colon (code point 58).\<close>

definition split_colon :: "str \<Rightarrow> str \<times> str" where
  "split_colon raw = (takeWhile (\<lambda>c. c \<noteq> 58) raw, drop 1 (dropWhile (\<lambda>c. c \<noteq> 58) raw))"

section \<open>docindex: slugify\<close>

fun keep_chars :: "interp \<Rightarrow> str \<Rightarrow> str" where
  "keep_chars py [] = []"
| "keep_chars py (c # cs) =
     (if isalnum py c then lower py [c] @ keep_chars py cs
      else if c \<in> set (lit ''/-_'') then 45 # keep_chars py cs
      else keep_chars py cs)"

text \<open>\<open>slug.replace("--", "-")\<close>: non-overlapping occurrences, from the left.\<close>

fun replace_dd :: "str \<Rightarrow> str" where
  "replace_dd (a # b # cs) =
     (if a = 45 \<and> b = 45 then 45 # replace_dd cs else a # replace_dd (b # cs))"
| "replace_dd cs = cs"

lemma length_replace_dd_le: "length (replace_dd s) \<le> length s"
  by (induction s rule: replace_dd.induct) auto

lemma length_replace_dd_less:
  "contains [45, 45] s \<Longrightarrow> length (replace_dd s) < length s"
proof (induction s rule: replace_dd.induct)
  case (1 a b cs)
  show ?case
  proof (cases "a = 45 \<and> b = 45")
    case True
    then show ?thesis
      using length_replace_dd_le [of cs] by simp
  next
    case False
    with 1 show ?thesis
      by (auto simp: startswith_def)
  qed
qed (auto simp: startswith_def)

function collapse :: "str \<Rightarrow> str" where
  "collapse slug = (if contains (lit ''--'') slug then collapse (replace_dd slug) else slug)"
  by pat_completeness auto
termination
  by (relation "measure length") (auto dest: length_replace_dd_less)

declare collapse.simps [simp del]

definition slugify :: "interp \<Rightarrow> str \<Rightarrow> str" where
  "slugify py text =
     (let slug = strip_chars (lit ''-'') (collapse (keep_chars py text))
      in if slug = [] then lit ''section'' else slug)"


section \<open>docindex: front matter, headings, index\<close>

text \<open>
  The loop of \<open>_parse_front_matter\<close> over the lines after the opening \<open>---\<close>; the
  state is \<open>data\<close>, \<open>current_key\<close> and \<open>idx\<close>.
\<close>

definition convert :: "interp \<Rightarrow> str \<Rightarrow> val" where
  "convert py v =
     (if v = [] then VList []
      else if v = lit ''[]'' \<or> v = lit ''null'' then VList []
      else (case to_int py v of Some n \<Rightarrow> VInt n | None \<Rightarrow> VStr v))"

fun fm_loop :: "interp \<Rightarrow> dict \<Rightarrow> str option \<Rightarrow> nat \<Rightarrow> str list \<Rightarrow> error + dict \<times> nat" where
  "fm_loop py data current_key idx [] = Inr (data, idx)"
| "fm_loop py data current_key idx (line # rest) =
     (let raw = rstrip_chars [10] line in
      if strip raw = lit ''---'' then Inr (data, idx + 1)
      else if startswith raw (lit ''  - '') \<and> truthy current_key then
        (case current_key of
           None \<Rightarrow> fm_loop py data current_key (idx + 1) rest
         | Some k \<Rightarrow>
             (case setdefault_append data k (strip (drop 4 raw)) of
                Inl e \<Rightarrow> Inl e
              | Inr data' \<Rightarrow> fm_loop py data' current_key (idx + 1) rest))
      else if 58 \<notin> set raw then fm_loop py data current_key (idx + 1) rest
      else
        (let key = strip (fst (split_colon raw)); v = strip (snd (split_colon raw))
         in fm_loop py (dict_set data key (convert py v)) (Some key) (idx + 1) rest))"

definition docindex_parse_front_matter ::
  "interp \<Rightarrow> str list \<Rightarrow> error + dict option \<times> nat" where
  "docindex_parse_front_matter py lines =
     (case lines of
        [] \<Rightarrow> Inr (None, 0)
      | first # rest \<Rightarrow>
          if strip first \<noteq> lit ''---'' then Inr (None, 0)
          else (case fm_loop py [] None 1 rest of
                  Inl e \<Rightarrow> Inl e
                | Inr (data, idx) \<Rightarrow> Inr (Some data, idx)))"

record heading =
  "text" :: str
  anchor :: str
  level :: nat

text \<open>
  \<open>anchor_pattern.match\<close>: the pattern \<open><a id="([^"]+)"></a>\<close> at the start of the
  string; the double quote is code point 34. The group is the longest run of characters
  other than the quote, since the pattern wants a quote right after it.
\<close>

definition match_anchor :: "str \<Rightarrow> str option" where
  "match_anchor s =
     (if startswith s (lit ''<a id='' @ [34]) then
        (let r = drop 7 s; g = takeWhile (\<lambda>c. c \<noteq> 34) r; t = dropWhile (\<lambda>c. c \<noteq> 34) r
         in if g \<noteq> [] \<and> startswith t (34 # lit ''></a>'') then Some g else None)
      else None)"

text \<open>\<open>pending_anchor or _slugify(text)\<close>.\<close>

definition anchor_or_slug :: "interp \<Rightarrow> str option \<Rightarrow> str \<Rightarrow> str" where
  "anchor_or_slug py pending_anchor t =
     (case pending_anchor of
        None \<Rightarrow> slugify py t
      | Some a \<Rightarrow> if a \<noteq> [] then a else slugify py t)"

text \<open>One round of the loop of \<open>_collect_headings\<close>, on \<open>headings\<close> and \<open>pending_anchor\<close>.\<close>

definition heading_step ::
  "interp \<Rightarrow> heading list \<times> str option \<Rightarrow> str \<Rightarrow> heading list \<times> str option" where
  "heading_step py st raw =
     (case match_anchor (strip raw) of
        Some a \<Rightarrow> (fst st, Some a)
      | None \<Rightarrow>
          (let content = lstrip raw in
           if \<not> startswith content (lit ''#'') then st
           else
             (let lvl = length content - length (lstrip_chars (lit ''#'') content);
                  t = strip (drop lvl content)
              in if t = [] then st
                 else (fst st @ [\<lparr>text = t, anchor = anchor_or_slug py (snd st) t,
                                   level = min lvl 6\<rparr>], None))))"

definition collect_headings :: "interp \<Rightarrow> str list \<Rightarrow> nat \<Rightarrow> heading list" where
  "collect_headings py lines start_index =
     fst (foldl (heading_step py) ([], None) (drop start_index lines))"

text \<open>
  A Markdown file as \<open>build_index\<close> sees it: the path it records, the file name's stem
  and the lines of the text. The files come in the sorted order of the directory listing.
\<close>

record md_file =
  md_path :: str
  stem :: str
  md_lines :: "str list"

record entry =
  path :: str
  title :: val
  docset_version :: val
  exported_at :: val
  doc_count :: val
  file_size :: val
  key_sections :: val
  headings :: "heading list"

record index =
  generated_at :: str
  docs_root :: str
  entries :: "entry list"

text \<open>\<open>d.get(k, default)\<close>.\<close>

definition get_default :: "dict \<Rightarrow> str \<Rightarrow> val \<Rightarrow> val" where
  "get_default d k dflt = (case dict_get d k of None \<Rightarrow> dflt | Some v \<Rightarrow> v)"

text \<open>
  The body of the loop of \<open>build_index\<close> for one file: \<open>None\<close> when the file is
  skipped (\<open>if not front_matter: continue\<close>).
\<close>

definition index_entry :: "interp \<Rightarrow> md_file \<Rightarrow> error + entry option" where
  "index_entry py f =
     (case docindex_parse_front_matter py (md_lines f) of
        Inl e \<Rightarrow> Inl e
      | Inr (front_matter, offset) \<Rightarrow>
          (case front_matter of
             None \<Rightarrow> Inr None
           | Some fm \<Rightarrow>
               if fm = [] then Inr None
               else Inr (Some
                 \<lparr>path = md_path f,
                  title = get_default fm (lit ''title'') (VStr (stem f)),
                  docset_version = get_default fm (lit ''docset_version'') (VStr (lit ''unknown'')),
                  exported_at = get_default fm (lit ''exported_at'') (VStr []),
                  doc_count = get_default fm (lit ''doc_count'') (VInt 0),
                  file_size = get_default fm (lit ''file_size'') (VInt 0),
                  key_sections = get_default fm (lit ''key_sections'') (VList []),
                  headings = collect_headings py (md_lines f) offset\<rparr>)))"

fun build_entries :: "interp \<Rightarrow> md_file list \<Rightarrow> error + entry list" where
  "build_entries py [] = Inr []"
| "build_entries py (f # fs) =
     (case index_entry py f of
        Inl e \<Rightarrow> Inl e
      | Inr r \<Rightarrow>
          (case build_entries py fs of
             Inl e \<Rightarrow> Inl e
           | Inr es \<Rightarrow> Inr ((case r of None \<Rightarrow> [] | Some x \<Rightarrow> [x]) @ es)))"

text \<open>
  \<open>build_index\<close>; the time stamp and the string of the root directory come from the
  clock and the file system.
\<close>

definition build_index :: "interp \<Rightarrow> str \<Rightarrow> str \<Rightarrow> md_file list \<Rightarrow> error + index" where
  "build_index py now root files =
     (case build_entries py files of
        Inl e \<Rightarrow> Inl e
      | Inr es \<Rightarrow> Inr \<lparr>generated_at = now, docs_root = root, entries = es\<rparr>)"

section \<open>docindex: search\<close>

text \<open>
  What \<open>for section in entry.get("key_sections", [])\<close> runs over: the items of a
  list, the characters of a string, the keys of a mapping; an integer is not iterable.
\<close>

definition iterate :: "val \<Rightarrow> error + str list" where
  "iterate v =
     (case v of
        VList xs \<Rightarrow> Inr xs
      | VStr s \<Rightarrow> Inr (map (\<lambda>c. [c]) s)
      | VInt n \<Rightarrow> Inl TypeError
      | VDict d \<Rightarrow> Inr (map fst d))"

text \<open>The key \<open>f"{path}#{anchor}"\<close> and the result line; 8212 is the em dash.\<close>

definition seen_key :: "str \<Rightarrow> str \<Rightarrow> str" where
  "seen_key p a = p @ lit ''#'' @ a"

definition result_line :: "interp \<Rightarrow> val \<Rightarrow> str \<Rightarrow> str \<Rightarrow> str \<Rightarrow> str" where
  "result_line py ttl t p a =
     py_str py ttl @ lit '': '' @ t @ lit '' '' @ [8212] @ lit '' '' @ seen_key p a"

text \<open>
  The state of \<open>search_entries\<close> is \<open>results\<close> and \<open>seen\<close>; \<open>seen\<close> is kept
  as the list of its keys in the order they were added, of which the code reads the
  membership only.
\<close>

definition record_hit ::
  "interp \<Rightarrow> val \<Rightarrow> str \<Rightarrow> str \<Rightarrow> str \<Rightarrow> str list \<times> str list \<Rightarrow> str list \<times> str list" where
  "record_hit py ttl t p a st =
     (if seen_key p a \<in> set (snd st) then st
      else (fst st @ [result_line py ttl t p a], snd st @ [seen_key p a]))"

definition heading_hit ::
  "interp \<Rightarrow> str \<Rightarrow> val \<Rightarrow> str \<Rightarrow> str list \<times> str list \<Rightarrow> heading \<Rightarrow> str list \<times> str list" where
  "heading_hit py term_lower ttl p st h =
     (if contains term_lower (lower py (text h)) then record_hit py ttl (text h) p (anchor h) st
      else st)"

definition section_hit ::
  "interp \<Rightarrow> str \<Rightarrow> val \<Rightarrow> str \<Rightarrow> str list \<times> str list \<Rightarrow> str \<Rightarrow> str list \<times> str list" where
  "section_hit py term_lower ttl p st s =
     (if contains term_lower (lower py s) then record_hit py ttl s p (slugify py s) st
      else st)"

definition search_entry ::
  "interp \<Rightarrow> str \<Rightarrow> str list \<times> str list \<Rightarrow> entry \<Rightarrow> error + str list \<times> str list" where
  "search_entry py term_lower st e =
     (let st1 = foldl (heading_hit py term_lower (title e) (path e)) st (headings e) in
      case iterate (key_sections e) of
        Inl err \<Rightarrow> Inl err
      | Inr secs \<Rightarrow> Inr (foldl (section_hit py term_lower (title e) (path e)) st1 secs))"

fun search_loop ::
  "interp \<Rightarrow> str \<Rightarrow> str list \<times> str list \<Rightarrow> entry list \<Rightarrow> error + str list \<times> str list" where
  "search_loop py term_lower st [] = Inr st"
| "search_loop py term_lower st (e # es) =
     (case search_entry py term_lower st e of
        Inl err \<Rightarrow> Inl err
      | Inr st' \<Rightarrow> search_loop py term_lower st' es)"

definition search_entries :: "interp \<Rightarrow> index \<Rightarrow> str \<Rightarrow> error + str list" where
  "search_entries py idx term =
     (case search_loop py (lower py term) ([], []) (entries idx) of
        Inl err \<Rightarrow> Inl err
      | Inr st \<Rightarrow> Inr (fst st))"

section \<open>docmeta: the peeker\<close>

text \<open>
  The state of the loop of \<open>_parse_front_matter_stream\<close>. A nested mapping bound to
  \<open>target\<close> is the object stored under \<open>parent_key\<close>, so every change of it is
  written back there.
\<close>

record fm_state =
  fm_data :: dict
  fm_raw_lines :: "str list"
  fm_parent_key :: "str option"
  fm_nested_current_key :: "str option"
  fm_current_key :: "str option"

text \<open>\<open>len(raw) - len(raw.lstrip(" "))\<close>.\<close>

definition indent_of :: "str \<Rightarrow> nat" where
  "indent_of raw = length raw - length (lstrip_chars (lit '' '') raw)"

text \<open>
  The part of the loop body from \<open>nested_current_key = None\<close> on: the rules of the
  top level.
\<close>

definition top_level :: "interp \<Rightarrow> fm_state \<Rightarrow> str \<Rightarrow> error + fm_state" where
  "top_level py s0 raw =
     (let s = s0\<lparr>fm_nested_current_key := None\<rparr>; stripped = strip raw in
      if startswith stripped (lit ''- '') \<and> truthy (fm_current_key s) then
        (case fm_current_key s of
           None \<Rightarrow> Inr s
         | Some k \<Rightarrow>
             (case setdefault_append (fm_data s) k (strip (drop 2 stripped)) of
                Inl e \<Rightarrow> Inl e
              | Inr d \<Rightarrow> Inr (s\<lparr>fm_data := d\<rparr>)))
      else if startswith stripped (lit ''  - '') \<and> truthy (fm_current_key s) then
        (case fm_current_key s of
           None \<Rightarrow> Inr s
         | Some k \<Rightarrow>
             (case setdefault_append (fm_data s) k (strip (drop 4 stripped)) of
                Inl e \<Rightarrow> Inl e
              | Inr d \<Rightarrow> Inr (s\<lparr>fm_data := d\<rparr>)))
      else if 58 \<notin> set raw then Inr s
      else
        (let key = strip (fst (split_colon raw)); v = strip (snd (split_colon raw)) in
         Inr (s\<lparr>fm_current_key := Some key,
                fm_parent_key := (if indent_of raw = 0 then Some key else fm_parent_key s),
                fm_data := dict_set (fm_data s) key
                  (if v = [] then VList []
                   else (case to_int py v of Some n \<Rightarrow> VInt n | None \<Rightarrow> VStr v))\<rparr>)))"

text \<open>
  The branch \<open>isinstance(target, dict)\<close> for the mapping \<open>target\<close> stored under the
  parent key \<open>pk\<close>.
\<close>

definition nested_step :: "interp \<Rightarrow> fm_state \<Rightarrow> str \<Rightarrow> dict \<Rightarrow> str \<Rightarrow> error + fm_state" where
  "nested_step py s pk target raw =
     (let stripped = strip raw in
      if startswith stripped (lit ''- '') then
        (case fm_nested_current_key s of
           None \<Rightarrow> Inr s
         | Some nk \<Rightarrow>
             if nk = [] then Inr s
             else (case setdefault_append target nk (strip (drop 2 stripped)) of
                     Inl e \<Rightarrow> Inl e
                   | Inr t \<Rightarrow> Inr (s\<lparr>fm_data := dict_set (fm_data s) pk (VDict t)\<rparr>)))
      else if 58 \<in> set stripped then
        (let nk = strip (fst (split_colon stripped)); v = strip (snd (split_colon stripped)) in
         Inr (s\<lparr>fm_nested_current_key := Some nk,
                fm_data := dict_set (fm_data s) pk
                  (VDict (dict_set target nk (if v = [] then VList [] else VStr v)))\<rparr>))
      else top_level py s raw)"

text \<open>The loop body for a line that is not the closing \<open>---\<close>.\<close>

definition stream_step :: "interp \<Rightarrow> fm_state \<Rightarrow> str \<Rightarrow> error + fm_state" where
  "stream_step py s0 raw =
     (let s = s0\<lparr>fm_raw_lines := fm_raw_lines s0 @ [rstrip_chars [10] raw]\<rparr>;
          stripped = strip raw in
      if 0 < indent_of raw \<and> truthy (fm_parent_key s) then
        (case fm_parent_key s of
           None \<Rightarrow> top_level py s raw
         | Some pk \<Rightarrow>
             (case dict_get (fm_data s) pk of
                Some (VList xs) \<Rightarrow>
                  if startswith stripped (lit ''- '') then
                    Inr (s\<lparr>fm_data := dict_set (fm_data s) pk
                                        (VList (xs @ [strip (drop 2 stripped)]))\<rparr>)
                  else nested_step py (s\<lparr>fm_data := dict_set (fm_data s) pk (VDict [])\<rparr>) pk [] raw
              | Some (VDict target) \<Rightarrow> nested_step py s pk target raw
              | _ \<Rightarrow> top_level py s raw))
      else top_level py s raw)"

text \<open>
  The loop over the stream: it ends at the closing \<open>---\<close>, which it consumes, or with
  the stream. The result carries the lines left in the stream.
\<close>

fun stream_loop :: "interp \<Rightarrow> fm_state \<Rightarrow> str list \<Rightarrow> error + fm_state \<times> str list" where
  "stream_loop py s [] = Inr (s, [])"
| "stream_loop py s (raw # fh) =
     (if strip raw = lit ''---'' then Inr (s, fh)
      else (case stream_step py s raw of
              Inl e \<Rightarrow> Inl e
            | Inr s' \<Rightarrow> stream_loop py s' fh))"

definition init_state :: fm_state where
  "init_state = \<lparr>fm_data = [], fm_raw_lines = [], fm_parent_key = None,
                  fm_nested_current_key = None, fm_current_key = None\<rparr>"

text \<open>
  \<open>_parse_front_matter_stream\<close>: the parsed data, the raw lines, the carry, and the
  lines it left in the stream.
\<close>

definition parse_front_matter_stream ::
  "interp \<Rightarrow> str list \<Rightarrow> error + dict \<times> str list \<times> str list \<times> str list" where
  "parse_front_matter_stream py fh =
     (case fh of
        [] \<Rightarrow> Inr ([], [], [], [])
      | first # rest \<Rightarrow>
          if strip first \<noteq> lit ''---'' then Inr ([], [], [first], rest)
          else (case stream_loop py init_state rest of
                  Inl e \<Rightarrow> Inl e
                | Inr (s, left) \<Rightarrow> Inr (fm_data s, fm_raw_lines s, [], left)))"

definition toc_title :: str where
  "toc_title = lit ''## Table of Contents''"

text \<open>
  The loop of \<open>_read_toc_block\<close> over \<open>chain(carry, fh)\<close>, on \<open>toc\<close>,
  \<open>started\<close> and \<open>lines_scanned\<close>; it returns \<open>toc\<close> and \<open>truncated\<close>.
\<close>

fun toc_loop :: "int \<Rightarrow> str list \<Rightarrow> bool \<Rightarrow> nat \<Rightarrow> str list \<Rightarrow> str list \<times> bool" where
  "toc_loop max_lines toc started lines_scanned [] = (toc, False)"
| "toc_loop max_lines toc started lines_scanned (raw # rest) =
     (let n = lines_scanned + 1; stripped = strip raw in
      if max_lines \<noteq> 0 \<and> int n > max_lines then (toc, True)
      else if \<not> started then
        (if stripped = toc_title then toc_loop max_lines (toc @ [stripped]) True n rest
         else toc_loop max_lines toc started n rest)
      else if startswith stripped (lit ''## '') \<and> stripped \<noteq> toc_title then (toc, False)
      else if stripped = [] then toc_loop max_lines toc started n rest
      else toc_loop max_lines (toc @ [rstrip_chars [10] raw]) started n rest)"

definition read_toc_block :: "str list \<Rightarrow> str list \<Rightarrow> int \<Rightarrow> str list \<times> bool" where
  "read_toc_block fh carry max_lines = toc_loop max_lines [] False 0 (carry @ fh)"

record peek_result =
  peek_path :: str
  has_front_matter :: bool
  front_matter :: dict
  front_matter_raw :: "str list"
  toc_found :: bool
  toc_truncated :: bool
  toc :: "str list option"

text \<open>
  \<open>peek_markdown\<close> on the lines of the file at \<open>path\<close>, each with its line end;
  \<open>None\<close> for a path that does not exist.
\<close>

definition peek_markdown ::
  "interp \<Rightarrow> str \<Rightarrow> str list option \<Rightarrow> bool \<Rightarrow> int \<Rightarrow> error + peek_result" where
  "peek_markdown py p file include_toc max_lines =
     (case file of
        None \<Rightarrow> Inl FileNotFoundError
      | Some fh \<Rightarrow>
          (case parse_front_matter_stream py fh of
             Inl e \<Rightarrow> Inl e
           | Inr (fm, fm_raw, carry, left) \<Rightarrow>
               (let r = (if include_toc then read_toc_block left carry max_lines else ([], False))
                in Inr \<lparr>peek_path = p,
                         has_front_matter = (fm \<noteq> []),
                         front_matter = fm,
                         front_matter_raw = fm_raw,
                         toc_found = (fst r \<noteq> []),
                         toc_truncated = snd r,
                         toc = (if include_toc then Some (fst r) else None)\<rparr>)))"

section \<open>docset_sanitize: the sanitizer\<close>

definition STOPWORDS_DEFAULT :: "str set" where
  "STOPWORDS_DEFAULT =
     {lit ''return value'', lit ''discussion'', lit ''special considerations'',
      lit ''parameters'', lit ''see also''}"

text \<open>
  The lines of the header up to the closing \<open>---\<close> and the lines after it, from the
  lines that follow the opening \<open>---\<close>; with no closing line the header is all of them.
\<close>

fun split_header :: "str list \<Rightarrow> str list \<times> str list" where
  "split_header [] = ([], [])"
| "split_header (line # ls) =
     (if strip line = lit ''---'' then ([], ls)
      else (line # fst (split_header ls), snd (split_header ls)))"

text \<open>
  The second loop of \<open>parse_front_matter\<close>, on \<open>data\<close> and \<open>key\<close>. Its
  first two branches test \<open>stripped\<close> against \<open>- \<close> and against two spaces and
  \<open>- \<close>, and both append \<open>stripped[2:]\<close>.
\<close>

fun san_loop :: "dict \<Rightarrow> str option \<Rightarrow> str list \<Rightarrow> error + dict" where
  "san_loop data key [] = Inr data"
| "san_loop data key (raw # rest) =
     (let stripped = strip raw in
      if (startswith stripped (lit ''- '') \<or> startswith stripped (lit ''  - '')) \<and> truthy key then
        (case key of
           None \<Rightarrow> san_loop data key rest
         | Some k \<Rightarrow>
             (case setdefault_append data k (drop 2 stripped) of
                Inl e \<Rightarrow> Inl e
              | Inr data' \<Rightarrow> san_loop data' key rest))
      else if 58 \<in> set raw then
        (let k = strip (fst (split_colon raw)); v = strip (snd (split_colon raw)) in
         san_loop (dict_set data k (if v \<noteq> [] then VStr v else VList [])) (Some k) rest)
      else san_loop data key rest)"

definition sanitize_parse_front_matter :: "str list \<Rightarrow> error + dict \<times> str list" where
  "sanitize_parse_front_matter ls =
     (case ls of
        [] \<Rightarrow> Inr ([], ls)
      | first # after \<Rightarrow>
          if strip first \<noteq> lit ''---'' then Inr ([], ls)
          else (case san_loop [] None (fst (split_header after)) of
                  Inl e \<Rightarrow> Inl e
                | Inr data \<Rightarrow> Inr (data, snd (split_header after))))"

text \<open>\<open>sep.join(xs)\<close>.\<close>

fun join :: "str \<Rightarrow> str list \<Rightarrow> str" where
  "join sep [] = []"
| "join sep [x] = x"
| "join sep (x # y # ys) = x @ sep @ join sep (y # ys)"

text \<open>The local function \<open>emit\<close>: the lines it appends.\<close>

definition emit :: "interp \<Rightarrow> str \<Rightarrow> val option \<Rightarrow> str list" where
  "emit py k v =
     (case v of
        None \<Rightarrow> []
      | Some x \<Rightarrow> if x = VStr [] then [] else [k @ lit '': '' @ py_str py x])"

text \<open>
  \<open>build_front_matter\<close>; \<open>now\<close> is the text of the current time, and the stop words
  come in the order of \<open>sorted\<close>, which compares strings code point by code point.
\<close>

definition build_front_matter ::
  "interp \<Rightarrow> str \<Rightarrow> dict \<Rightarrow> str list \<Rightarrow> int \<Rightarrow> str set \<Rightarrow> str list" where
  "build_front_matter py now meta sections toc_depth stopwords =
     (let summary = join (lit '', '') (take 6 sections) in
      [lit ''---'']
      @ emit py (lit ''title'') (dict_get meta (lit ''title''))
      @ emit py (lit ''docset_version'') (dict_get meta (lit ''docset_version''))
      @ emit py (lit ''exported_at'') (dict_get meta (lit ''exported_at''))
      @ emit py (lit ''doc_count'') (dict_get meta (lit ''doc_count''))
      @ emit py (lit ''file_size'') (dict_get meta (lit ''file_size''))
      @ (if summary \<noteq> [] then emit py (lit ''summary'') (Some (VStr summary)) else [])
      @ [lit ''key_sections:'']
      @ map (\<lambda>section. lit ''  - '' @ section) (take 20 sections)
      @ [lit ''sanitizer:'',
         lit ''  generated_at: '' @ now,
         lit ''  toc_depth: '' @ py_str py (VInt toc_depth),
         lit ''  stopwords:'']
      @ map (\<lambda>word. lit ''    - '' @ word) (sorted_list_of_set stopwords)
      @ [lit ''---''])"

text \<open>
  The group of \<open>\[(.+?)\]\<close> once the opening bracket is read: one character, then as
  few more as reach a closing bracket (code point 93); the dot matches no line feed.
\<close>

definition match_bracket :: "str \<Rightarrow> str option" where
  "match_bracket r =
     (case r of
        [] \<Rightarrow> None
      | c # cs \<Rightarrow>
          if c = 10 then None
          else (let g = takeWhile (\<lambda>x. x \<noteq> 93 \<and> x \<noteq> 10) cs;
                    t = dropWhile (\<lambda>x. x \<noteq> 93 \<and> x \<noteq> 10) cs
                in if startswith t [93] then Some (c # g) else None))"

text \<open>\<open>re.match(r"(\s*)- \[(.+?)\]", line)\<close>: the length of group 1 and group 2.\<close>

definition toc_match :: "str \<Rightarrow> (nat \<times> str) option" where
  "toc_match line =
     (let r = dropWhile isspace line in
      if startswith r (lit ''- ['') then
        (case match_bracket (drop 3 r) of
           None \<Rightarrow> None
         | Some g \<Rightarrow> Some (length (takeWhile isspace line), g))
      else None)"

text \<open>\<open>re.match(r"- \[(.+?)\]", s)\<close>: group 1.\<close>

definition link_match :: "str \<Rightarrow> str option" where
  "link_match s = (if startswith s (lit ''- ['') then match_bracket (drop 3 s) else None)"

definition keep_toc_line :: "interp \<Rightarrow> int \<Rightarrow> str set \<Rightarrow> str \<Rightarrow> bool" where
  "keep_toc_line py toc_depth stopwords line =
     (if \<not> startswith (lstrip line) (lit ''-'') then False
      else (case toc_match line of
              None \<Rightarrow> False
            | Some (indent, g) \<Rightarrow>
                (let depth = indent div 2 + 1; low = lower py (strip g) in
                 if int depth > toc_depth then False
                 else if low \<in> lower py ` stopwords then False
                 else if low = lit ''overview'' \<and> depth > 1 then False
                 else True)))"

definition rebuild_toc :: "interp \<Rightarrow> str list \<Rightarrow> int \<Rightarrow> str set \<Rightarrow> str list" where
  "rebuild_toc py text_lines toc_depth stopwords =
     map rstrip (filter (keep_toc_line py toc_depth stopwords) text_lines)"

text \<open>The loop of \<open>sanitize_file\<close> that finds \<open>toc_start\<close> and \<open>toc_end\<close>.\<close>

fun find_toc :: "nat option \<Rightarrow> nat \<Rightarrow> str list \<Rightarrow> nat option \<times> nat option" where
  "find_toc toc_start i [] = (toc_start, None)"
| "find_toc toc_start i (line # rest) =
     (if strip line = toc_title then find_toc (Some i) (i + 1) rest
      else if (case toc_start of None \<Rightarrow> False | Some t \<Rightarrow> startswith line (lit ''## '') \<and> t < i)
        then (toc_start, Some i)
      else find_toc toc_start (i + 1) rest)"

definition trim_toc :: "interp \<Rightarrow> int \<Rightarrow> str set \<Rightarrow> str list \<Rightarrow> str list" where
  "trim_toc py toc_depth stopwords rest =
     (case find_toc None 0 rest of
        (Some toc_start, Some toc_end) \<Rightarrow>
          take (toc_start + 1) rest
          @ rebuild_toc py (take (toc_end - (toc_start + 1)) (drop (toc_start + 1) rest))
              toc_depth stopwords
          @ drop toc_end rest
      | _ \<Rightarrow> rest)"

text \<open>The loop that fills \<open>cleaned_sections\<close>.\<close>

fun clean_sections :: "interp \<Rightarrow> str set \<Rightarrow> str list \<Rightarrow> str list \<Rightarrow> str list" where
  "clean_sections py stopwords cleaned [] = cleaned"
| "clean_sections py stopwords cleaned (t # ts) =
     (if lower py t \<in> stopwords \<or> lower py t = lit ''overview'' then
        clean_sections py stopwords cleaned ts
      else if t \<in> set cleaned then clean_sections py stopwords cleaned ts
      else clean_sections py stopwords (cleaned @ [t]) ts)"

text \<open>The loop that fills \<open>derived\<close>, left at ten titles.\<close>

fun derive_sections :: "interp \<Rightarrow> str set \<Rightarrow> str list \<Rightarrow> str list \<Rightarrow> str list" where
  "derive_sections py stopwords derived [] = derived"
| "derive_sections py stopwords derived (line # rest) =
     (case link_match (strip line) of
        None \<Rightarrow> derive_sections py stopwords derived rest
      | Some t \<Rightarrow>
          if lower py t \<in> stopwords \<or> lower py t = lit ''overview'' then
            derive_sections py stopwords derived rest
          else if t \<in> set derived then derive_sections py stopwords derived rest
          else if 10 \<le> length (derived @ [t]) then derived @ [t]
          else derive_sections py stopwords (derived @ [t]) rest)"

text \<open>
  The \<open>key_sections\<close> that \<open>sanitize_file\<close> hands to \<open>build_front_matter\<close>, from
  the parsed header and the body after the table of contents is trimmed.
\<close>

definition output_key_sections :: "interp \<Rightarrow> str set \<Rightarrow> dict \<Rightarrow> str list \<Rightarrow> str list" where
  "output_key_sections py stopwords meta rest =
     (let listed = (case dict_get meta (lit ''key_sections'') of
                      Some (VList xs) \<Rightarrow> xs | _ \<Rightarrow> []);
          cleaned = clean_sections py stopwords [] listed
      in if cleaned = [] then derive_sections py stopwords [] rest else cleaned)"

text \<open>\<open>sanitize_file\<close>, from the lines of the input to the lines it writes.\<close>

definition sanitize_file ::
  "interp \<Rightarrow> str \<Rightarrow> str list \<Rightarrow> int \<Rightarrow> str set \<Rightarrow> error + str list" where
  "sanitize_file py now txt toc_depth stopwords =
     (case sanitize_parse_front_matter txt of
        Inl e \<Rightarrow> Inl e
      | Inr (meta, rest0) \<Rightarrow>
          (let rest = trim_toc py toc_depth stopwords rest0 in
           Inr (build_front_matter py now meta
                  (output_key_sections py stopwords meta rest) toc_depth stopwords
                @ rest)))"

text \<open>The stop words \<open>main\<close> builds from the defaults and the \<open>--stopword\<close> options.\<close>

definition main_stopwords :: "interp \<Rightarrow> str list \<Rightarrow> str set" where
  "main_stopwords py extra = lower py ` STOPWORDS_DEFAULT \<union> lower py ` set extra"

section \<open>An interpreter for the examples\<close>

text \<open>
  The built-ins of CPython on ASCII text, and on the capital I with a dot above (U+0130,
  code point 304), which \<open>str.isalnum\<close> accepts and \<open>str.lower\<close> turns into the two
  characters \<open>i\<close> and the combining dot above (U+0307, code point 775). The examples
  below use no other character outside ASCII but the em dash of the result lines.
\<close>

definition ascii_alnum :: "nat \<Rightarrow> bool" where
  "ascii_alnum c \<longleftrightarrow> (48 \<le> c \<and> c \<le> 57) \<or> (65 \<le> c \<and> c \<le> 90) \<or> (97 \<le> c \<and> c \<le> 122)"

definition ascii_lower :: "nat \<Rightarrow> nat" where
  "ascii_lower c = (if 65 \<le> c \<and> c \<le> 90 then c + 32 else c)"

definition cpy_isalnum :: "nat \<Rightarrow> bool" where
  "cpy_isalnum c \<longleftrightarrow> ascii_alnum c \<or> c = 304"

definition cpy_lower :: "str \<Rightarrow> str" where
  "cpy_lower s = concat (map (\<lambda>c. if c = 304 then [105, 775] else [ascii_lower c]) s)"

definition is_digit :: "nat \<Rightarrow> bool" where
  "is_digit c \<longleftrightarrow> 48 \<le> c \<and> c \<le> 57"

text \<open>
  \<open>int(s)\<close> in base ten: a sign, then digits, single underscores between digits
  allowed; at most 4300 digits.
\<close>

fun int_digits :: "nat \<Rightarrow> str \<Rightarrow> nat option" where
  "int_digits acc [] = Some acc"
| "int_digits acc [c] = (if is_digit c then Some (10 * acc + (c - 48)) else None)"
| "int_digits acc (c # d # cs) =
     (if is_digit c then int_digits (10 * acc + (c - 48)) (d # cs)
      else if c = 95 \<and> is_digit d then int_digits (10 * acc + (d - 48)) cs
      else None)"

definition int_unsigned :: "str \<Rightarrow> nat option" where
  "int_unsigned s =
     (case s of
        [] \<Rightarrow> None
      | c # cs \<Rightarrow>
          if is_digit c \<and> length (filter is_digit s) \<le> 4300 then int_digits (c - 48) cs
          else None)"

definition cpy_to_int :: "str \<Rightarrow> int option" where
  "cpy_to_int s =
     (case strip s of
        [] \<Rightarrow> None
      | c # cs \<Rightarrow>
          if c = 43 then map_option int (int_unsigned cs)
          else if c = 45 then map_option (\<lambda>n. - int n) (int_unsigned cs)
          else map_option int (int_unsigned (c # cs)))"

function digits_of :: "nat \<Rightarrow> str" where
  "digits_of n = (if n < 10 then [48 + n] else digits_of (n div 10) @ [48 + n mod 10])"
  by pat_completeness auto
termination
  by (relation "measure id") auto

declare digits_of.simps [simp del]

text \<open>
  \<open>repr\<close> of an integer, of a list of strings and of a mapping; the strings are quoted
  as CPython quotes a string without quotes, backslashes or control characters.
\<close>

definition quoted :: "str \<Rightarrow> str" where
  "quoted s = [39] @ s @ [39]"

fun cpy_repr :: "val \<Rightarrow> str" where
  "cpy_repr (VStr s) = quoted s"
| "cpy_repr (VInt n) = (if n < 0 then 45 # digits_of (nat (- n)) else digits_of (nat n))"
| "cpy_repr (VList xs) = lit ''['' @ join (lit '', '') (map quoted xs) @ lit '']''"
| "cpy_repr (VDict d) =
     lit ''{'' @ join (lit '', '') (map (\<lambda>(k, v). quoted k @ lit '': '' @ cpy_repr v) d) @ lit ''}''"

definition cpy :: interp where
  "cpy = \<lparr>isalnum = cpy_isalnum, lower = cpy_lower, to_int = cpy_to_int, repr = cpy_repr\<rparr>"

section \<open>Conditions on the interpreter\<close>

text \<open>The interpreter agrees with ASCII on the code points below 128.\<close>

definition ascii_exact :: "interp \<Rightarrow> bool" where
  "ascii_exact py \<longleftrightarrow>
     (\<forall>c<128. isalnum py c = ascii_alnum c \<and> lower py [c] = [ascii_lower c])"

text \<open>
  The lower case of the character, when it is alphanumeric, is made of alphanumeric
  characters that are their own lower case.
\<close>

definition lower_stable :: "interp \<Rightarrow> nat \<Rightarrow> bool" where
  "lower_stable py c \<longleftrightarrow>
     (isalnum py c \<longrightarrow> (\<forall>d\<in>set (lower py [c]). isalnum py d \<and> lower py [d] = [d]))"

text \<open>The characters of a slug: the hyphen (code point 45) and what \<open>keep_chars\<close> keeps.\<close>

definition slug_char :: "interp \<Rightarrow> nat \<Rightarrow> bool" where
  "slug_char py d \<longleftrightarrow> d = 45 \<or> (isalnum py d \<and> lower py [d] = [d])"

text \<open>The test of \<open>_parse_front_matter\<close> for a text without front matter.\<close>

definition no_front_matter :: "str list \<Rightarrow> bool" where
  "no_front_matter ls = (case ls of [] \<Rightarrow> True | first # rest \<Rightarrow> strip first \<noteq> lit ''---'')"

text \<open>Two files and the index of the second, for the examples.\<close>

definition example_plain :: md_file where
  "example_plain = \<lparr>md_path = lit ''docs/plain.md'', stem = lit ''plain'',
     md_lines = [lit ''# Plain'', lit ''no header here'']\<rparr>"

definition example_widget :: md_file where
  "example_widget = \<lparr>md_path = lit ''docs/widget.md'', stem = lit ''widget'',
     md_lines = [lit ''---'', lit ''exported_at: today'', lit ''---'', lit ''# Widget'']\<rparr>"

definition example_index :: index where
  "example_index = \<lparr>generated_at = lit ''now'', docs_root = lit ''docs'',
     entries = [\<lparr>path = lit ''docs/widget.md'', title = VStr (lit ''widget''),
       docset_version = VStr (lit ''unknown''), exported_at = VStr (lit ''today''),
       doc_count = VInt 0, file_size = VInt 0, key_sections = VList [],
       headings = [\<lparr>text = lit ''Widget'', anchor = lit ''widget'', level = 1\<rparr>]\<rparr>]\<rparr>"

text \<open>
  Twenty lines after the front matter: the table of contents starts at line 3 and runs to
  line 20.
\<close>

definition example_toc_lines :: "str list" where
  "example_toc_lines =
     [lit ''# Widget'' @ [10], [10], lit ''## Table of Contents'' @ [10],
      lit ''- [Overview](#overview)'' @ [10], [10]]
     @ replicate 15 (lit ''- [Details](#details)'' @ [10])"

text \<open>
  The text and the number of \<open>#\<close> of a line that \<open>_collect_headings\<close> takes for a
  heading: not an anchor marker, \<open>#\<close> first after the left trim, and text after them.
\<close>

definition heading_of :: "str \<Rightarrow> (str \<times> nat) option" where
  "heading_of raw =
     (if match_anchor (strip raw) \<noteq> None then None
      else
        (let content = lstrip raw in
         if \<not> startswith content (lit ''#'') then None
         else
           (let lvl = length content - length (lstrip_chars (lit ''#'') content);
                t = strip (drop lvl content)
            in if t = [] then None else Some (t, lvl))))"

text \<open>An anchor marker, for the examples.\<close>

definition example_marker :: str where
  "example_marker = lit ''<a id='' @ [34] @ lit ''intro'' @ [34] @ lit ''></a>''"

text \<open>
  The lines \<open>build_front_matter\<close> writes before the \<open>key_sections:\<close> line and
  after the \<open>sanitizer:\<close> line.
\<close>

definition header_head :: "interp \<Rightarrow> dict \<Rightarrow> str list \<Rightarrow> str list" where
  "header_head py meta sections =
     [lit ''---'']
      @ emit py (lit ''title'') (dict_get meta (lit ''title''))
      @ emit py (lit ''docset_version'') (dict_get meta (lit ''docset_version''))
      @ emit py (lit ''exported_at'') (dict_get meta (lit ''exported_at''))
      @ emit py (lit ''doc_count'') (dict_get meta (lit ''doc_count''))
      @ emit py (lit ''file_size'') (dict_get meta (lit ''file_size''))
      @ (if join (lit '', '') (take 6 sections) \<noteq> []
         then emit py (lit ''summary'') (Some (VStr (join (lit '', '') (take 6 sections)))) else [])"

definition header_tail :: "interp \<Rightarrow> str \<Rightarrow> int \<Rightarrow> str set \<Rightarrow> str list" where
  "header_tail py now toc_depth stopwords =
     [lit ''  generated_at: '' @ now,
      lit ''  toc_depth: '' @ py_str py (VInt toc_depth),
      lit ''  stopwords:'']
      @ map (\<lambda>word. lit ''    - '' @ word) (sorted_list_of_set stopwords)
      @ [lit ''---'']"

text \<open>A text for the sanitizer and the mapping its header parses to.\<close>

definition example_doc :: "str list" where
  "example_doc =
     [lit ''---'', lit ''title: Widget'', lit ''key_sections:'', lit ''  - Overview'',
      lit ''  - DISCUSSION'', lit ''  - Widgets'', lit ''  - See Also'', lit ''---'',
      lit ''# Widget'']"

definition example_meta :: dict where
  "example_meta =
     [(lit ''title'', VStr (lit ''Widget'')),
      (lit ''key_sections'',
       VList [lit ''Overview'', lit ''DISCUSSION'', lit ''Widgets'', lit ''See Also''])]"

text \<open>Twenty-one key sections and a text whose header lists them.\<close>

definition example_sections21 :: "str list" where
  "example_sections21 =
     [lit ''A'', lit ''B'', lit ''C'', lit ''D'', lit ''E'', lit ''F'', lit ''G'', lit ''H'',
      lit ''I'', lit ''J'', lit ''K'', lit ''L'', lit ''M'', lit ''N'', lit ''O'', lit ''P'',
      lit ''Q'', lit ''R'', lit ''S'', lit ''T'', lit ''U'']"

definition example_long_doc :: "str list" where
  "example_long_doc =
     lit ''---'' # lit ''key_sections:'' # map (\<lambda>x. lit ''  - '' @ x) example_sections21
     @ [lit ''---'']"

text \<open>
  The state of the search is aligned when no key is in \<open>seen\<close> twice and every result
  line ends with the key at its position.
\<close>

definition aligned :: "str list \<times> str list \<Rightarrow> bool" where
  "aligned st \<longleftrightarrow> distinct (snd st) \<and> list_all2 (\<lambda>r k. \<exists>t. r = t @ k) (fst st) (snd st)"

text \<open>
  An index of one entry, with one key section and one heading of the same text whose
  anchor is the parameter.
\<close>

definition example_entry :: "str \<Rightarrow> entry" where
  "example_entry a =
     \<lparr>path = lit ''docs/demo.md'', title = VStr (lit ''Demo''),
      docset_version = VInt 123, exported_at = VStr (lit ''2025-11-12T00:00:00Z''),
      doc_count = VInt 1, file_size = VInt 100, key_sections = VList [lit ''Demo Section''],
      headings = [\<lparr>text = lit ''Demo Section'', anchor = a, level = 2\<rparr>]\<rparr>"

definition example_search_index :: "str \<Rightarrow> index" where
  "example_search_index a =
     \<lparr>generated_at = lit ''now'', docs_root = lit ''docs'', entries = [example_entry a]\<rparr>"

section \<open>Slugs\<close>

lemma contains_iff: "contains p s \<longleftrightarrow> (\<exists>as bs. s = as @ p @ bs)"
proof (induction s)
  case Nil
  then show ?case by auto
next
  case (Cons x xs)
  have "startswith (x # xs) p \<longleftrightarrow> (\<exists>bs. x # xs = p @ bs)"
    unfolding startswith_def
    by (metis append_eq_conv_conj append_take_drop_id)
  moreover have "(\<exists>as bs. x # xs = as @ p @ bs) \<longleftrightarrow>
      (\<exists>bs. x # xs = p @ bs) \<or> (\<exists>as bs. xs = as @ p @ bs)"
  proof
    assume "\<exists>as bs. x # xs = as @ p @ bs"
    then obtain as bs where e: "x # xs = as @ p @ bs" by blast
    show "(\<exists>bs. x # xs = p @ bs) \<or> (\<exists>as bs. xs = as @ p @ bs)"
    proof (cases as)
      case Nil
      with e show ?thesis by auto
    next
      case (Cons a as')
      with e have "xs = as' @ p @ bs" by simp
      then show ?thesis by blast
    qed
  next
    assume "(\<exists>bs. x # xs = p @ bs) \<or> (\<exists>as bs. xs = as @ p @ bs)"
    then show "\<exists>as bs. x # xs = as @ p @ bs"
    proof
      assume "\<exists>bs. x # xs = p @ bs"
      then obtain bs where "x # xs = [] @ p @ bs" by auto
      then show ?thesis by blast
    next
      assume "\<exists>as bs. xs = as @ p @ bs"
      then obtain as bs where "x # xs = (x # as) @ p @ bs" by auto
      then show ?thesis by blast
    qed
  qed
  ultimately show ?case using Cons.IH by simp
qed

lemma set_replace_dd: "set (replace_dd s) \<subseteq> set s"
  by (induction s rule: replace_dd.induct) auto

lemma set_collapse: "set (collapse s) \<subseteq> set s"
proof (induction s rule: collapse.induct)
  case (1 slug)
  show ?case
  proof (cases "contains (lit ''--'') slug")
    case True
    with 1 set_replace_dd [of slug] show ?thesis
      by (subst collapse.simps) auto
  next
    case False
    then show ?thesis by (subst collapse.simps) simp
  qed
qed

lemma collapse_no_dd: "\<not> contains (lit ''--'') (collapse s)"
proof (induction s rule: collapse.induct)
  case (1 slug)
  show ?case
  proof (cases "contains (lit ''--'') slug")
    case True
    with 1 show ?thesis by (subst collapse.simps) simp
  next
    case False
    then show ?thesis by (subst collapse.simps) simp
  qed
qed

lemma collapse_id: "\<not> contains (lit ''--'') s \<Longrightarrow> collapse s = s"
  by (subst collapse.simps) simp

lemma rev_dropWhile_decomp: "t = rev (dropWhile P (rev t)) @ rev (takeWhile P (rev t))"
  by (metis rev_append rev_rev_ident takeWhile_dropWhile_id)

lemma strip_chars_decomp: "\<exists>as bs. s = as @ strip_chars cs s @ bs"
proof -
  let ?t = "lstrip_chars cs s"
  have 1: "s = takeWhile (\<lambda>c. c \<in> set cs) s @ ?t"
    by (simp add: lstrip_chars_def)
  have 2: "?t = strip_chars cs s @ rev (takeWhile (\<lambda>c. c \<in> set cs) (rev ?t))"
    unfolding strip_chars_def rstrip_chars_def by (rule rev_dropWhile_decomp)
  show ?thesis by (subst 1, subst 2) blast
qed

lemma strip_chars_set: "set (strip_chars cs s) \<subseteq> set s"
  using strip_chars_decomp [of s cs] by (metis Un_iff set_append subsetI)

lemma strip_chars_no_sub:
  assumes "\<not> contains p s" shows "\<not> contains p (strip_chars cs s)"
proof
  assume "contains p (strip_chars cs s)"
  then obtain as bs where a: "strip_chars cs s = as @ p @ bs"
    by (auto simp: contains_iff)
  obtain as' bs' where "s = as' @ strip_chars cs s @ bs'"
    using strip_chars_decomp by blast
  with a have "s = (as' @ as) @ p @ (bs @ bs')" by simp
  then have "contains p s" unfolding contains_iff by blast
  with assms show False by simp
qed

lemma strip_chars_ends:
  assumes "strip_chars cs s \<noteq> []"
  shows "hd (strip_chars cs s) \<notin> set cs" and "last (strip_chars cs s) \<notin> set cs"
proof -
  let ?t = "lstrip_chars cs s"
  let ?r = "strip_chars cs s"
  have r: "?r = rev (dropWhile (\<lambda>c. c \<in> set cs) (rev ?t))"
    by (simp add: strip_chars_def rstrip_chars_def)
  with assms have ne: "dropWhile (\<lambda>c. c \<in> set cs) (rev ?t) \<noteq> []" by simp
  then have "hd (dropWhile (\<lambda>c. c \<in> set cs) (rev ?t)) \<notin> set cs"
    using hd_dropWhile by blast
  with ne r show "last ?r \<notin> set cs"
    by (simp add: last_rev)
  from ne have tne: "?t \<noteq> []" by auto
  then have "hd ?t \<notin> set cs"
    unfolding lstrip_chars_def using hd_dropWhile by blast
  moreover have "\<exists>bs. ?t = ?r @ bs"
    unfolding r using rev_dropWhile_decomp by blast
  ultimately show "hd ?r \<notin> set cs"
    using assms by (metis hd_append2)
qed

lemma strip_chars_id:
  assumes "s \<noteq> []" "hd s \<notin> set cs" "last s \<notin> set cs"
  shows "strip_chars cs s = s"
proof -
  from assms have 1: "lstrip_chars cs s = s"
    by (cases s) (auto simp: lstrip_chars_def)
  from assms have "rev s \<noteq> []" "hd (rev s) \<notin> set cs"
    by (simp_all add: hd_rev)
  then have "dropWhile (\<lambda>c. c \<in> set cs) (rev s) = rev s"
    by (cases "rev s") auto
  with 1 show ?thesis
    by (simp add: strip_chars_def rstrip_chars_def)
qed

lemma keep_chars_slug_char:
  assumes "\<forall>c\<in>set s. lower_stable py c"
  shows "\<forall>d\<in>set (keep_chars py s). slug_char py d"
  using assms
proof (induction s)
  case Nil
  then show ?case by simp
next
  case (Cons c s)
  then have IH: "\<forall>d\<in>set (keep_chars py s). slug_char py d"
    and st: "lower_stable py c" by simp_all
  show ?case
  proof (cases "isalnum py c")
    case True
    with st have "\<forall>d\<in>set (lower py [c]). slug_char py d"
      by (simp add: lower_stable_def slug_char_def)
    with True IH show ?thesis by auto
  next
    case False
    with IH show ?thesis by (simp add: slug_char_def)
  qed
qed

lemma keep_chars_id:
  assumes "\<not> isalnum py 45" "\<forall>d\<in>set r. slug_char py d"
  shows "keep_chars py r = r"
  using assms(2)
proof (induction r)
  case Nil
  then show ?case by simp
next
  case (Cons d r)
  then have "slug_char py d" and IH: "keep_chars py r = r" by simp_all
  then show ?case using assms(1)
    by (auto simp: slug_char_def)
qed

lemma ascii_exact_hyphen: "ascii_exact py \<Longrightarrow> \<not> isalnum py 45"
  by (simp add: ascii_exact_def ascii_alnum_def)

lemma slugify_section:
  assumes "ascii_exact py"
  shows "slugify py (lit ''section'') = lit ''section''"
proof -
  have k: "keep_chars py (lit ''section'') = lit ''section''"
    using assms by (simp add: ascii_exact_def ascii_alnum_def ascii_lower_def)
  have c: "collapse (lit ''section'') = lit ''section''"
    by (rule collapse_id) (simp add: startswith_def)
  show ?thesis
    unfolding slugify_def k c
    by (simp add: strip_chars_def rstrip_chars_def lstrip_chars_def)
qed


section \<open>The front-matter loop of the index builder\<close>

lemmas str_defs = strip_def lstrip_def rstrip_def isspace_def rstrip_chars_def lstrip_chars_def
  strip_chars_def startswith_def split_colon_def truthy_def

lemmas cpy_defs = cpy_def cpy_isalnum_def cpy_lower_def ascii_alnum_def ascii_lower_def
  cpy_to_int_def int_unsigned_def is_digit_def

lemma dict_get_set: "dict_get (dict_set d k v) k = Some v"
  by (induction d) (auto simp: dict_get_def)

lemma dict_set_set: "dict_set (dict_set d k v) k w = dict_set d k w"
  by (induction d) auto

lemma fm_loop_key_line:
  assumes "raw = rstrip_chars [10] line" "strip raw \<noteq> lit ''---''"
      "\<not> (startswith raw (lit ''  - '') \<and> truthy cur)" "58 \<in> set raw"
  shows "fm_loop py data cur idx (line # rest) =
         fm_loop py (dict_set data (strip (fst (split_colon raw)))
                       (convert py (strip (snd (split_colon raw)))))
           (Some (strip (fst (split_colon raw)))) (idx + 1) rest"
  using assms by (auto simp: Let_def)

lemma fm_loop_item_line:
  assumes "raw = rstrip_chars [10] line" "strip raw \<noteq> lit ''---''"
      "startswith raw (lit ''  - '')" "k \<noteq> []"
  shows "fm_loop py data (Some k) idx (line # rest) =
         (case setdefault_append data k (strip (drop 4 raw)) of
            Inl e \<Rightarrow> Inl e
          | Inr data' \<Rightarrow> fm_loop py data' (Some k) (idx + 1) rest)"
  using assms by (simp add: Let_def truthy_def)

section \<open>Files without front matter\<close>

lemma set_rstrip_chars: "set (rstrip_chars cs s) \<subseteq> set s"
proof -
  have "set (dropWhile (\<lambda>c. c \<in> set cs) (rev s)) \<subseteq> set (rev s)"
    by (rule set_dropWhileD [THEN subsetI])
  then show ?thesis by (simp add: rstrip_chars_def)
qed

lemma dropWhile_weaker:
  assumes "\<And>x. Q x \<Longrightarrow> P x"
  shows "dropWhile P (dropWhile Q xs) = dropWhile P xs"
  using assms by (induction xs) auto

lemma dropWhile_snoc_keep: "\<not> P x \<Longrightarrow> dropWhile P (xs @ [x]) = dropWhile P xs @ [x]"
  by (induction xs) auto

lemma dropWhile_snoc_drop:
  "P x \<Longrightarrow> dropWhile P (xs @ [x]) = (if dropWhile P xs = [] then [] else dropWhile P xs @ [x])"
  by (induction xs) auto

lemma strip_both_ends:
  "rev (dropWhile P (rev (dropWhile P s))) = dropWhile P (rev (dropWhile P (rev s)))"
proof (induction s)
  case Nil
  show ?case by simp
next
  case (Cons x s)
  show ?case
  proof (cases "P x")
    case True
    then show ?thesis using Cons.IH
      by (auto simp: dropWhile_snoc_drop dest: set_dropWhileD)
  next
    case False
    then show ?thesis by (simp add: dropWhile_snoc_keep)
  qed
qed

lemma strip_rstrip_nl: "strip (rstrip_chars [10] s) = strip s"
proof -
  have "strip (rstrip_chars [10] s)
      = dropWhile isspace (rev (dropWhile isspace (rev (rstrip_chars [10] s))))"
    unfolding strip_def lstrip_def rstrip_def by (rule strip_both_ends)
  also have "dropWhile isspace (rev (rstrip_chars [10] s)) = dropWhile isspace (rev s)"
    unfolding rstrip_chars_def rev_rev_ident
    by (rule dropWhile_weaker) (simp add: isspace_def)
  also have "dropWhile isspace (rev (dropWhile isspace (rev s))) = strip s"
    unfolding strip_def lstrip_def rstrip_def by (rule strip_both_ends [symmetric])
  finally show ?thesis .
qed

lemma fm_loop_no_colon:
  assumes "\<forall>l\<in>set body. 58 \<notin> set l" "strip (rstrip_chars [10] cl) = lit ''---''"
  shows "\<exists>n. fm_loop py [] None idx (body @ cl # rest) = Inr ([], n)"
  using assms(1)
proof (induction body arbitrary: idx)
  case Nil
  then show ?case using assms(2) by simp
next
  case (Cons l body)
  then have "58 \<notin> set l" and r: "\<forall>l\<in>set body. 58 \<notin> set l" by simp_all
  then have nc: "58 \<notin> set (rstrip_chars [10] l)"
    using set_rstrip_chars [of "[10]" l] by blast
  show ?case
  proof (cases "strip (rstrip_chars [10] l) = lit ''---''")
    case True
    then show ?thesis by simp
  next
    case False
    then have "fm_loop py [] None idx ((l # body) @ cl # rest)
        = fm_loop py [] None (idx + 1) (body @ cl # rest)"
      using nc by (simp add: truthy_def)
    with Cons.IH [OF r, of "idx + 1"] show ?thesis by simp
  qed
qed

lemma build_entries_skip:
  assumes "index_entry py f = Inr None"
  shows "build_entries py (fs1 @ f # fs2) = build_entries py (fs1 @ fs2)"
proof (induction fs1)
  case Nil
  show ?case using assms by (simp split: sum.split)
next
  case (Cons g fs1)
  show ?case by (simp only: append_Cons build_entries.simps Cons.IH)
qed

lemma build_index_skip:
  assumes "index_entry py f = Inr None"
  shows "build_index py now root (fs1 @ f # fs2) = build_index py now root (fs1 @ fs2)"
  by (simp add: build_index_def build_entries_skip [OF assms])

lemma top_level_no_colon:
  assumes "58 \<notin> set raw" "fm_current_key s = None"
  shows "top_level py s raw = Inr (s\<lparr>fm_nested_current_key := None\<rparr>)"
  using assms by (simp add: top_level_def truthy_def Let_def)

lemma stream_step_no_colon:
  assumes "58 \<notin> set raw" "fm_current_key s = None" "fm_parent_key s = None"
  shows "stream_step py s raw =
      Inr (s\<lparr>fm_raw_lines := fm_raw_lines s @ [rstrip_chars [10] raw],
              fm_nested_current_key := None\<rparr>)"
  using assms by (simp add: stream_step_def truthy_def Let_def top_level_no_colon)

lemma stream_loop_no_colon:
  assumes "\<forall>l\<in>set body. 58 \<notin> set l" "strip cl = lit ''---''"
    and "fm_data s = []" "fm_current_key s = None" "fm_parent_key s = None"
  shows "\<exists>s' left. stream_loop py s (body @ cl # rest) = Inr (s', left) \<and> fm_data s' = []"
  using assms(1,3,4,5)
proof (induction body arbitrary: s)
  case Nil
  then show ?case using assms(2) by simp
next
  case (Cons l body)
  then have nc: "58 \<notin> set l" and r: "\<forall>l\<in>set body. 58 \<notin> set l" by simp_all
  let ?s = "s\<lparr>fm_raw_lines := fm_raw_lines s @ [rstrip_chars [10] l],
              fm_nested_current_key := None\<rparr>"
  show ?case
  proof (cases "strip l = lit ''---''")
    case True
    then show ?thesis using Cons.prems by simp
  next
    case False
    have st: "stream_step py s l = Inr ?s"
      by (rule stream_step_no_colon [OF nc Cons.prems(3,4)])
    have "stream_loop py s ((l # body) @ cl # rest) = stream_loop py ?s (body @ cl # rest)"
      using False st by simp
    moreover have "\<exists>s' left. stream_loop py ?s (body @ cl # rest) = Inr (s', left) \<and> fm_data s' = []"
      using Cons.prems by (intro Cons.IH [OF r]) simp_all
    ultimately show ?thesis by simp
  qed
qed

lemma build_entries_sources:
  "build_entries py fs = Inr es \<Longrightarrow> \<forall>e\<in>set es. \<exists>f\<in>set fs. index_entry py f = Inr (Some e)"
proof (induction fs arbitrary: es)
  case Nil
  then show ?case by simp
next
  case (Cons g fs)
  from Cons.prems obtain r es' where r: "index_entry py g = Inr r"
    and es': "build_entries py fs = Inr es'"
    and es: "es = (case r of None \<Rightarrow> [] | Some x \<Rightarrow> [x]) @ es'"
    by (auto split: sum.splits)
  show ?case
  proof
    fix e assume "e \<in> set es"
    with es consider "r = Some e" | "e \<in> set es'"
      by (cases r) auto
    then show "\<exists>f\<in>set (g # fs). index_entry py f = Inr (Some e)"
    proof cases
      case 1
      with r show ?thesis by simp
    next
      case 2
      with Cons.IH [OF es'] show ?thesis by auto
    qed
  qed
qed

lemma index_entry_Some:
  assumes "index_entry py f = Inr (Some e)"
  shows "\<exists>fm offset. docindex_parse_front_matter py (md_lines f) = Inr (Some fm, offset) \<and>
     title e = get_default fm (lit ''title'') (VStr (stem f)) \<and>
     doc_count e = get_default fm (lit ''doc_count'') (VInt 0) \<and>
     file_size e = get_default fm (lit ''file_size'') (VInt 0) \<and>
     key_sections e = get_default fm (lit ''key_sections'') (VList [])"
  using assms unfolding index_entry_def
  by (auto split: sum.splits option.splits if_splits)

lemma no_front_matter_entry:
  assumes "no_front_matter (md_lines f)"
  shows "index_entry py f = Inr None"
  using assms
  by (cases "md_lines f")
    (simp_all add: no_front_matter_def index_entry_def docindex_parse_front_matter_def)

section \<open>The loop of the TOC scanner\<close>

lemma toc_loop_before:
  assumes "\<forall>l\<in>set pre. strip l \<noteq> toc_title" "int (n + length pre) \<le> m"
  shows "toc_loop m acc False n (pre @ rest) = toc_loop m acc False (n + length pre) rest"
  using assms
proof (induction pre arbitrary: n)
  case Nil
  then show ?case by simp
next
  case (Cons l pre)
  then have "strip l \<noteq> toc_title" "\<not> int (n + 1) > m" by auto
  then have "toc_loop m acc False n ((l # pre) @ rest) = toc_loop m acc False (n + 1) (pre @ rest)"
    by (simp add: Let_def)
  also have "\<dots> = toc_loop m acc False (n + 1 + length pre) rest"
    using Cons.prems by (intro Cons.IH) auto
  finally show ?case by simp
qed

lemma toc_loop_title:
  assumes "strip h = toc_title" "int (n + 1) \<le> m"
  shows "toc_loop m acc False n (h # rest) = toc_loop m (acc @ [toc_title]) True (n + 1) rest"
  using assms by (simp add: Let_def)

lemma toc_loop_block:
  assumes "\<forall>l\<in>set block. \<not> (startswith (strip l) (lit ''## '') \<and> strip l \<noteq> toc_title)"
    "int (n + length block) \<le> m"
  shows "toc_loop m acc True n (block @ rest) =
     toc_loop m (acc @ map (rstrip_chars [10]) (filter (\<lambda>l. strip l \<noteq> []) block)) True
       (n + length block) rest"
  using assms
proof (induction block arbitrary: n acc)
  case Nil
  then show ?case by simp
next
  case (Cons l block)
  then have l: "\<not> (startswith (strip l) (lit ''## '') \<and> strip l \<noteq> toc_title)"
    and b: "\<not> int (n + 1) > m" by auto
  have r: "\<forall>l\<in>set block. \<not> (startswith (strip l) (lit ''## '') \<and> strip l \<noteq> toc_title)"
    "int (n + 1 + length block) \<le> m"
    using Cons.prems by auto
  show ?case
  proof (cases "strip l = []")
    case True
    then have "toc_loop m acc True n ((l # block) @ rest) = toc_loop m acc True (n + 1) (block @ rest)"
      using l b by (auto simp: Let_def)
    with Cons.IH [OF r, of acc] True show ?thesis by simp
  next
    case False
    then have "toc_loop m acc True n ((l # block) @ rest)
        = toc_loop m (acc @ [rstrip_chars [10] l]) True (n + 1) (block @ rest)"
      using l b by (auto simp: Let_def)
    with Cons.IH [OF r, of "acc @ [rstrip_chars [10] l]"] False show ?thesis by simp
  qed
qed

lemma toc_loop_stop:
  assumes "0 < m" "m \<le> int n"
  shows "toc_loop m acc started n rest = (acc, rest \<noteq> [])"
  using assms by (cases rest) (auto simp: Let_def)

section \<open>The loop of the heading extractor\<close>

lemma heading_step_marker:
  "match_anchor (strip raw) = Some a \<Longrightarrow> heading_step py st raw = (fst st, Some a)"
  by (simp add: heading_step_def)

lemma heading_step_other:
  "match_anchor (strip raw) = None \<Longrightarrow> heading_of raw = None \<Longrightarrow> heading_step py st raw = st"
  by (auto simp: heading_step_def heading_of_def Let_def split: if_splits)

lemma heading_step_heading:
  "heading_of raw = Some (t, lvl) \<Longrightarrow>
   heading_step py st raw =
     (fst st @ [\<lparr>text = t, anchor = anchor_or_slug py (snd st) t, level = min lvl 6\<rparr>], None)"
  by (auto simp: heading_step_def heading_of_def Let_def split: if_splits)

lemma match_anchor_nonempty: "match_anchor s = Some a \<Longrightarrow> a \<noteq> []"
  by (auto simp: match_anchor_def Let_def split: if_splits)

lemma heading_step_shift:
  "heading_step py (hs @ fst st, snd st) raw =
     (hs @ fst (heading_step py st raw), snd (heading_step py st raw))"
  by (auto simp: heading_step_def Let_def split: option.splits)

lemma run_shift:
  "foldl (heading_step py) (hs, p) ls =
     (hs @ fst (foldl (heading_step py) ([], p) ls), snd (foldl (heading_step py) ([], p) ls))"
proof (induction ls rule: rev_induct)
  case Nil
  show ?case by simp
next
  case (snoc l ls)
  let ?s = "foldl (heading_step py) ([], p) ls"
  have "foldl (heading_step py) (hs, p) (ls @ [l]) = heading_step py (hs @ fst ?s, snd ?s) l"
    using snoc.IH by simp
  also have "\<dots> = (hs @ fst (heading_step py ?s l), snd (heading_step py ?s l))"
    by (rule heading_step_shift)
  finally show ?case by simp
qed

lemma run_other:
  assumes "\<forall>l\<in>set g. match_anchor (strip l) = None \<and> heading_of l = None"
  shows "foldl (heading_step py) st g = st"
  using assms by (induction g arbitrary: st) (simp_all add: heading_step_other)

lemma run_no_marker:
  assumes "\<forall>l\<in>set g. match_anchor (strip l) = None"
  shows "snd (foldl (heading_step py) (hs, None) g) = None \<and>
         (\<forall>h\<in>set (fst (foldl (heading_step py) (hs, None) g)) - set hs.
            anchor h = slugify py (text h))"
  using assms
proof (induction g rule: rev_induct)
  case Nil
  show ?case by simp
next
  case (snoc l g)
  let ?s = "foldl (heading_step py) (hs, None) g"
  from snoc have IH: "snd ?s = None"
    "\<forall>h\<in>set (fst ?s) - set hs. anchor h = slugify py (text h)"
    and l: "match_anchor (strip l) = None" by simp_all
  show ?case
  proof (cases "heading_of l")
    case None
    with l have "heading_step py ?s l = ?s" by (rule heading_step_other)
    with IH show ?thesis by simp
  next
    case (Some a)
    obtain t lvl where "a = (t, lvl)" by (cases a)
    with Some have "heading_step py ?s l =
        (fst ?s @ [\<lparr>text = t, anchor = anchor_or_slug py (snd ?s) t, level = min lvl 6\<rparr>], None)"
      by (simp add: heading_step_heading)
    with IH show ?thesis by (auto simp: anchor_or_slug_def)
  qed
qed

section \<open>The key sections the sanitizer writes\<close>

lemma clean_sections_kept:
  assumes "\<forall>t\<in>set cleaned. lower py t \<notin> stopwords \<and> lower py t \<noteq> lit ''overview''"
  shows "\<forall>t\<in>set (clean_sections py stopwords cleaned ts).
           lower py t \<notin> stopwords \<and> lower py t \<noteq> lit ''overview''"
  using assms
proof (induction ts arbitrary: cleaned)
  case Nil
  then show ?case by (simp only: clean_sections.simps)
next
  case (Cons t ts)
  show ?case
  proof (cases "lower py t \<in> stopwords \<or> lower py t = lit ''overview'' \<or> t \<in> set cleaned")
    case True
    then have "clean_sections py stopwords cleaned (t # ts) = clean_sections py stopwords cleaned ts"
      by (simp only: clean_sections.simps split: if_split) blast
    with Cons.IH [OF Cons.prems] show ?thesis by (simp only:)
  next
    case False
    then have e: "clean_sections py stopwords cleaned (t # ts)
        = clean_sections py stopwords (cleaned @ [t]) ts"
      by (simp only: clean_sections.simps split: if_split) blast
    have k: "\<forall>u\<in>set (cleaned @ [t]). lower py u \<notin> stopwords \<and> lower py u \<noteq> lit ''overview''"
    proof
      fix u assume "u \<in> set (cleaned @ [t])"
      then have "u \<in> set cleaned \<or> u = t" by auto
      then show "lower py u \<notin> stopwords \<and> lower py u \<noteq> lit ''overview''"
        using False Cons.prems by blast
    qed
    from Cons.IH [OF k] show ?thesis by (simp only: e)
  qed
qed

lemma derive_sections_kept:
  assumes "\<forall>t\<in>set derived. lower py t \<notin> stopwords \<and> lower py t \<noteq> lit ''overview''"
  shows "\<forall>t\<in>set (derive_sections py stopwords derived ls).
           lower py t \<notin> stopwords \<and> lower py t \<noteq> lit ''overview''"
  using assms
proof (induction ls arbitrary: derived)
  case Nil
  then show ?case by (simp only: derive_sections.simps)
next
  case (Cons l ls)
  show ?case
  proof (cases "link_match (strip l)")
    case None
    then have "derive_sections py stopwords derived (l # ls)
        = derive_sections py stopwords derived ls"
      by (simp only: derive_sections.simps option.case)
    with Cons.IH [OF Cons.prems] show ?thesis by (simp only:)
  next
    case (Some t)
    show ?thesis
    proof (cases "lower py t \<in> stopwords \<or> lower py t = lit ''overview'' \<or> t \<in> set derived")
      case True
      then have "derive_sections py stopwords derived (l # ls)
          = derive_sections py stopwords derived ls"
        using Some by (simp only: derive_sections.simps option.case split: if_split) blast
      with Cons.IH [OF Cons.prems] show ?thesis by (simp only:)
    next
      case False
      have k: "\<forall>u\<in>set (derived @ [t]). lower py u \<notin> stopwords \<and> lower py u \<noteq> lit ''overview''"
      proof
        fix u assume "u \<in> set (derived @ [t])"
        then have "u \<in> set derived \<or> u = t" by auto
        then show "lower py u \<notin> stopwords \<and> lower py u \<noteq> lit ''overview''"
          using False Cons.prems by blast
      qed
      show ?thesis
      proof (cases "10 \<le> length (derived @ [t])")
        case True
        then have "derive_sections py stopwords derived (l # ls) = derived @ [t]"
          using Some False by (simp only: derive_sections.simps option.case split: if_split) blast
        with k show ?thesis by (simp only:)
      next
        case short: False
        then have "derive_sections py stopwords derived (l # ls)
            = derive_sections py stopwords (derived @ [t]) ls"
          using Some False by (simp only: derive_sections.simps option.case split: if_split) blast
        with Cons.IH [OF k] show ?thesis by (simp only:)
      qed
    qed
  qed
qed

lemma output_key_sections_kept:
  "\<forall>t\<in>set (output_key_sections py stopwords meta rest).
      lower py t \<notin> stopwords \<and> lower py t \<noteq> lit ''overview''"
proof -
  have e: "\<forall>t\<in>set ([]::str list). lower py t \<notin> stopwords \<and> lower py t \<noteq> lit ''overview''"
    by simp
  show ?thesis
    unfolding output_key_sections_def Let_def
    using clean_sections_kept [OF e] derive_sections_kept [OF e]
    by (simp only: split: if_split) blast
qed

lemma build_front_matter_parts:
  "build_front_matter py now meta sections toc_depth stopwords =
     header_head py meta sections
     @ lit ''key_sections:'' # map (\<lambda>s. lit ''  - '' @ s) (take 20 sections)
     @ lit ''sanitizer:'' # header_tail py now toc_depth stopwords"
  unfolding build_front_matter_def header_head_def header_tail_def Let_def
  by (simp only: append_assoc append_Cons append_Nil)

section \<open>The header the sanitizer reads\<close>

lemma strip_alt: "strip s = dropWhile isspace (rev (dropWhile isspace (rev s)))"
  unfolding strip_def lstrip_def rstrip_def by (rule strip_both_ends)

lemma strip_hd: "strip s \<noteq> [] \<Longrightarrow> \<not> isspace (hd (strip s))"
  unfolding strip_alt by (rule hd_dropWhile)

lemma strip_last: "strip s \<noteq> [] \<Longrightarrow> \<not> isspace (last (strip s))"
proof -
  assume a: "strip s \<noteq> []"
  then have "dropWhile isspace (rev (lstrip s)) \<noteq> []"
    by (simp add: strip_def rstrip_def)
  then have "\<not> isspace (hd (dropWhile isspace (rev (lstrip s))))"
    by (rule hd_dropWhile)
  then show ?thesis using a by (simp add: strip_def rstrip_def last_rev)
qed

lemma strip_no_indent: "\<not> startswith (strip s) (lit ''  - '')"
proof
  assume a: "startswith (strip s) (lit ''  - '')"
  then have "strip s \<noteq> []" by (auto simp: startswith_def)
  moreover from a have "hd (strip s) = 32"
    by (cases "strip s") (auto simp: startswith_def)
  ultimately show False using strip_hd [of s] by (simp add: isspace_def)
qed

lemma in_strip_or_space:
  assumes "c \<in> set s" shows "c \<in> set (strip s) \<or> isspace c"
proof -
  have 1: "s = takeWhile isspace s @ lstrip s" by (simp add: lstrip_def)
  have 2: "lstrip s = strip s @ rev (takeWhile isspace (rev (lstrip s)))"
    unfolding strip_def rstrip_def by (rule rev_dropWhile_decomp)
  from assms 1 have "c \<in> set (takeWhile isspace s) \<or> c \<in> set (lstrip s)"
    by (metis Un_iff set_append)
  then show ?thesis
  proof
    assume "c \<in> set (takeWhile isspace s)"
    then show ?thesis by (auto dest: set_takeWhileD)
  next
    assume "c \<in> set (lstrip s)"
    with 2 have "c \<in> set (strip s) \<or> c \<in> set (rev (takeWhile isspace (rev (lstrip s))))"
      by (metis Un_iff set_append)
    then show ?thesis by (auto dest: set_takeWhileD)
  qed
qed

lemma colon_line_not_fence:
  assumes "58 \<in> set l" shows "strip l \<noteq> lit ''---''"
proof
  assume a: "strip l = lit ''---''"
  from in_strip_or_space [OF assms] have "58 \<in> set (strip l)"
    by (simp add: isspace_def)
  with a show False by simp
qed

lemma dropWhile_keep:
  "ys \<noteq> [] \<Longrightarrow> \<not> P (hd ys) \<Longrightarrow> dropWhile P (ys @ zs) = ys @ zs"
  by (cases ys) simp_all

lemma strip_item:
  assumes "x \<noteq> []" "strip x = x"
  shows "strip (lit ''  - '' @ x) = lit ''- '' @ x"
proof -
  have l: "lstrip (lit ''  - '' @ x) = lit ''- '' @ x"
    by (simp add: lstrip_def isspace_def)
  from assms strip_last [of x] have "\<not> isspace (last x)" by simp
  with assms(1) have "rev x \<noteq> []" "\<not> isspace (hd (rev x))"
    by (simp_all add: hd_rev)
  then have "dropWhile isspace (rev x @ rev (lit ''- '')) = rev x @ rev (lit ''- '')"
    by (rule dropWhile_keep)
  then have "rstrip (lit ''- '' @ x) = lit ''- '' @ x"
    unfolding rstrip_def by (simp only: rev_append [symmetric] rev_rev_ident)
  with l show ?thesis by (simp only: strip_def)
qed

lemma san_loop_item_line:
  assumes "k \<noteq> []" "x \<noteq> []" "strip x = x"
  shows "san_loop data (Some k) ((lit ''  - '' @ x) # rest) =
     (case setdefault_append data k x of
        Inl e \<Rightarrow> Inl e
      | Inr data' \<Rightarrow> san_loop data' (Some k) rest)"
  using assms(1) strip_item [OF assms(2,3)]
  by (simp add: Let_def startswith_def truthy_def)

lemma san_loop_key_line:
  assumes "58 \<in> set raw" "\<not> startswith (strip raw) (lit ''- '')"
  shows "san_loop data key (raw # rest) =
     san_loop (dict_set data (strip (fst (split_colon raw)))
                 (if strip (snd (split_colon raw)) \<noteq> [] then VStr (strip (snd (split_colon raw)))
                  else VList []))
       (Some (strip (fst (split_colon raw)))) rest"
  using assms strip_no_indent [of raw] by (simp add: Let_def)

lemma san_loop_key_lines:
  assumes "\<forall>l\<in>set pre. 58 \<in> set l \<and> \<not> startswith (strip l) (lit ''- '')"
  shows "\<exists>d k. san_loop data key (pre @ rest) = san_loop d k rest"
  using assms
proof (induction pre arbitrary: data key)
  case Nil
  show ?case by auto
next
  case (Cons l pre)
  then have l: "58 \<in> set l" "\<not> startswith (strip l) (lit ''- '')"
    and r: "\<forall>l\<in>set pre. 58 \<in> set l \<and> \<not> startswith (strip l) (lit ''- '')" by simp_all
  show ?case
    unfolding append_Cons san_loop_key_line [OF l] by (rule Cons.IH [OF r])
qed

lemma san_loop_items:
  assumes "k \<noteq> []" "dict_get data k = Some (VList ys)" "\<forall>x\<in>set xs. x \<noteq> [] \<and> strip x = x"
  shows "san_loop data (Some k) (map (\<lambda>x. lit ''  - '' @ x) xs) = Inr (dict_set data k (VList (ys @ xs)))"
  using assms(2,3)
proof (induction xs arbitrary: data ys)
  case Nil
  then have "dict_set data k (VList ys) = data"
    by (induction data) (auto simp: dict_get_def split: if_splits)
  then show ?case by simp
next
  case (Cons x xs)
  then have x: "x \<noteq> []" "strip x = x" and r: "\<forall>x\<in>set xs. x \<noteq> [] \<and> strip x = x" by simp_all
  have a: "setdefault_append data k x = Inr (dict_set data k (VList (ys @ [x])))"
    using Cons.prems(1) by (simp add: setdefault_append_def)
  have "san_loop data (Some k) (map (\<lambda>x. lit ''  - '' @ x) (x # xs))
      = san_loop data (Some k) ((lit ''  - '' @ x) # map (\<lambda>x. lit ''  - '' @ x) xs)"
    by simp
  also have "\<dots> = (case setdefault_append data k x of
        Inl e \<Rightarrow> Inl e
      | Inr data' \<Rightarrow> san_loop data' (Some k) (map (\<lambda>x. lit ''  - '' @ x) xs))"
    by (rule san_loop_item_line [OF assms(1) x])
  also have "\<dots> = san_loop (dict_set data k (VList (ys @ [x]))) (Some k)
      (map (\<lambda>x. lit ''  - '' @ x) xs)"
    by (simp only: a sum.case)
  also have "\<dots> = Inr (dict_set (dict_set data k (VList (ys @ [x]))) k (VList ((ys @ [x]) @ xs)))"
    by (rule Cons.IH [OF dict_get_set r])
  finally show ?case by (simp add: dict_set_set)
qed

lemma split_header_block:
  assumes "\<forall>l\<in>set hdr. strip l \<noteq> lit ''---''" "strip cl = lit ''---''"
  shows "split_header (hdr @ cl # body) = (hdr, body)"
  using assms by (induction hdr) simp_all

lemma parse_key_sections_block:
  assumes "strip op = lit ''---''" "strip cl = lit ''---''"
    and "\<forall>l\<in>set pre. strip l \<noteq> lit ''---''"
    and "san_loop [] None (pre @ lit ''key_sections:'' # map (\<lambda>x. lit ''  - '' @ x) xs)
           = san_loop d k (lit ''key_sections:'' # map (\<lambda>x. lit ''  - '' @ x) xs)"
    and "\<forall>x\<in>set xs. x \<noteq> [] \<and> strip x = x"
  shows "sanitize_parse_front_matter
           (op # pre @ lit ''key_sections:'' # map (\<lambda>x. lit ''  - '' @ x) xs @ cl # body)
         = Inr (dict_set d (lit ''key_sections'') (VList xs), body)"
proof -
  let ?items = "map (\<lambda>x. lit ''  - '' @ x) xs"
  let ?hdr = "pre @ lit ''key_sections:'' # ?items"
  have nf: "\<forall>l\<in>set ?hdr. strip l \<noteq> lit ''---''"
  proof
    fix l assume "l \<in> set ?hdr"
    then consider "l \<in> set pre" | "l = lit ''key_sections:''" | "l \<in> set ?items" by auto
    then show "strip l \<noteq> lit ''---''"
    proof cases
      case 1
      with assms(3) show ?thesis by blast
    next
      case 2
      then show ?thesis by (intro colon_line_not_fence) simp
    next
      case 3
      then obtain x where "x \<in> set xs" "l = lit ''  - '' @ x" by auto
      with assms(5) strip_item [of x] show ?thesis by auto
    qed
  qed
  have sh: "split_header (?hdr @ cl # body) = (?hdr, body)"
    by (rule split_header_block [OF nf assms(2)])
  have ks: "san_loop d k (lit ''key_sections:'' # ?items)
      = san_loop (dict_set d (lit ''key_sections'') (VList [])) (Some (lit ''key_sections'')) ?items"
    by (subst san_loop_key_line) (simp_all add: str_defs)
  have it: "san_loop (dict_set d (lit ''key_sections'') (VList [])) (Some (lit ''key_sections'')) ?items
      = Inr (dict_set (dict_set d (lit ''key_sections'') (VList [])) (lit ''key_sections'')
               (VList ([] @ xs)))"
    by (rule san_loop_items [OF _ dict_get_set assms(5)]) simp
  have loop: "san_loop [] None ?hdr = Inr (dict_set d (lit ''key_sections'') (VList xs))"
    unfolding assms(4) ks it by (simp add: dict_set_set)
  show ?thesis
    using assms(1) sh loop by (simp add: sanitize_parse_front_matter_def)
qed

section \<open>The loops of the search\<close>

lemmas search_defs = search_entry_def heading_hit_def section_hit_def record_hit_def
  result_line_def seen_key_def iterate_def py_str_def example_search_index_def
  example_entry_def slugify_def collapse.simps

lemma record_hit_aligned:
  assumes "aligned st" shows "aligned (record_hit py ttl t p a st)"
proof (cases "seen_key p a \<in> set (snd st)")
  case True
  with assms show ?thesis by (simp add: record_hit_def)
next
  case False
  have "\<exists>u. result_line py ttl t p a = u @ seen_key p a"
    unfolding result_line_def by (metis append.assoc)
  with False assms show ?thesis
    by (simp add: record_hit_def aligned_def list_all2_appendI)
qed

lemma record_hit_grows: "set (snd st) \<subseteq> set (snd (record_hit py ttl t p a st))"
  by (simp add: record_hit_def subset_insertI)

lemma record_hit_seen: "seen_key p a \<in> set (snd (record_hit py ttl t p a st))"
  by (simp add: record_hit_def)

lemma heading_hit_aligned: "aligned st \<Longrightarrow> aligned (heading_hit py needle ttl p st h)"
  by (simp add: heading_hit_def record_hit_aligned)

lemma heading_hit_grows: "set (snd st) \<subseteq> set (snd (heading_hit py needle ttl p st h))"
  by (simp add: heading_hit_def record_hit_grows)

lemma section_hit_aligned: "aligned st \<Longrightarrow> aligned (section_hit py needle ttl p st s)"
  by (simp add: section_hit_def record_hit_aligned)

lemma section_hit_grows: "set (snd st) \<subseteq> set (snd (section_hit py needle ttl p st s))"
  by (simp add: section_hit_def record_hit_grows)

lemma foldl_aligned:
  assumes "\<And>st x. aligned st \<Longrightarrow> aligned (f st x)" "aligned st"
  shows "aligned (foldl f st xs)"
  using assms(2) by (induction xs arbitrary: st) (simp_all add: assms(1))

lemma foldl_grows:
  assumes "\<And>st x. set (snd st) \<subseteq> set (snd (f st x))"
  shows "set (snd st) \<subseteq> set (snd (foldl f st xs))"
proof (induction xs arbitrary: st)
  case Nil
  show ?case by simp
next
  case (Cons x xs)
  have "set (snd st) \<subseteq> set (snd (f st x))" by (rule assms)
  also have "\<dots> \<subseteq> set (snd (foldl f (f st x) xs))" by (rule Cons.IH)
  finally show ?case by simp
qed

lemma foldl_seen:
  assumes g: "\<And>st x. set (snd st) \<subseteq> set (snd (f st x))"
    and x: "x \<in> set xs" and k: "\<And>st. k \<in> set (snd (f st x))"
  shows "k \<in> set (snd (foldl f st xs))"
  using x
proof (induction xs arbitrary: st)
  case Nil
  then show ?case by simp
next
  case (Cons y ys)
  show ?case
  proof (cases "x = y")
    case True
    have "k \<in> set (snd (f st y))" unfolding True [symmetric] by (rule k)
    with foldl_grows [of f "f st y" ys, OF g] show ?thesis by auto
  next
    case False
    with Cons.prems have "x \<in> set ys" by simp
    then show ?thesis by (simp add: Cons.IH)
  qed
qed

lemma search_entry_facts:
  assumes "search_entry py needle st e = Inr st'"
  shows "set (snd st) \<subseteq> set (snd st')"
    and "aligned st \<Longrightarrow> aligned st'"
    and "h \<in> set (headings e) \<Longrightarrow> contains needle (lower py (text h)) \<Longrightarrow>
         seen_key (path e) (anchor h) \<in> set (snd st')"
    and "iterate (key_sections e) = Inr secs \<Longrightarrow> s \<in> set secs \<Longrightarrow>
         contains needle (lower py s) \<Longrightarrow> seen_key (path e) (slugify py s) \<in> set (snd st')"
proof -
  let ?H = "heading_hit py needle (title e) (path e)"
  let ?S = "section_hit py needle (title e) (path e)"
  let ?st1 = "foldl ?H st (headings e)"
  from assms obtain ss where ss: "iterate (key_sections e) = Inr ss"
    and st': "st' = foldl ?S ?st1 ss"
    by (auto simp: search_entry_def Let_def split: sum.splits)
  have g1: "set (snd st) \<subseteq> set (snd ?st1)"
    by (rule foldl_grows) (rule heading_hit_grows)
  have g2: "set (snd ?st1) \<subseteq> set (snd st')"
    unfolding st' by (rule foldl_grows) (rule section_hit_grows)
  from g1 g2 show "set (snd st) \<subseteq> set (snd st')" by blast
  show "aligned st'" if "aligned st"
    unfolding st'
    by (intro foldl_aligned section_hit_aligned heading_hit_aligned that)
  show "seen_key (path e) (anchor h) \<in> set (snd st')"
    if "h \<in> set (headings e)" "contains needle (lower py (text h))"
  proof -
    have "seen_key (path e) (anchor h) \<in> set (snd ?st1)"
      by (rule foldl_seen [OF heading_hit_grows that(1)])
        (simp add: heading_hit_def that(2) record_hit_seen)
    with g2 show ?thesis by blast
  qed
  show "seen_key (path e) (slugify py s) \<in> set (snd st')"
    if "iterate (key_sections e) = Inr secs" "s \<in> set secs" "contains needle (lower py s)"
  proof -
    from that(1) ss have "secs = ss" by simp
    with that(2) have "s \<in> set ss" by simp
    then show ?thesis
      unfolding st'
      by (rule foldl_seen [OF section_hit_grows])
        (simp add: section_hit_def that(3) record_hit_seen)
  qed
qed

lemma search_loop_facts:
  assumes "search_loop py needle st es = Inr st'"
  shows "set (snd st) \<subseteq> set (snd st')"
    and "aligned st \<Longrightarrow> aligned st'"
    and "e \<in> set es \<Longrightarrow> h \<in> set (headings e) \<Longrightarrow> contains needle (lower py (text h)) \<Longrightarrow>
         seen_key (path e) (anchor h) \<in> set (snd st')"
    and "e \<in> set es \<Longrightarrow> iterate (key_sections e) = Inr secs \<Longrightarrow> s \<in> set secs \<Longrightarrow>
         contains needle (lower py s) \<Longrightarrow> seen_key (path e) (slugify py s) \<in> set (snd st')"
  using assms
proof (induction es arbitrary: st)
  case Nil
  {
    case 1 then show ?case by simp
  next
    case 2 then show ?case by simp
  next
    case 3 then show ?case by simp
  next
    case 4 then show ?case by simp
  }
next
  case (Cons d ds)
  {
    case 1
    then obtain st1 where a: "search_entry py needle st d = Inr st1"
      and b: "search_loop py needle st1 ds = Inr st'"
      by (auto split: sum.splits)
    from search_entry_facts(1) [OF a] Cons.IH(1) [OF b] show ?case by blast
  next
    case 2
    then obtain st1 where a: "search_entry py needle st d = Inr st1"
      and b: "search_loop py needle st1 ds = Inr st'"
      by (auto split: sum.splits)
    from search_entry_facts(2) [OF a] Cons.IH(2) [OF _ b] 2(1) show ?case by blast
  next
    case 3
    then obtain st1 where a: "search_entry py needle st d = Inr st1"
      and b: "search_loop py needle st1 ds = Inr st'"
      by (auto split: sum.splits)
    show ?case
    proof (cases "e = d")
      case True
      with search_entry_facts(3) [OF a] 3 have "seen_key (path e) (anchor h) \<in> set (snd st1)"
        by simp
      with Cons.IH(1) [OF b] show ?thesis by blast
    next
      case False
      with 3 have "e \<in> set ds" by simp
      with Cons.IH(3) [OF _ _ _ b] 3 show ?thesis by blast
    qed
  next
    case 4
    then obtain st1 where a: "search_entry py needle st d = Inr st1"
      and b: "search_loop py needle st1 ds = Inr st'"
      by (auto split: sum.splits)
    show ?case
    proof (cases "e = d")
      case True
      with search_entry_facts(4) [OF a] 4 have "seen_key (path e) (slugify py s) \<in> set (snd st1)"
        by simp
      with Cons.IH(1) [OF b] show ?thesis by blast
    next
      case False
      with 4 have "e \<in> set ds" by simp
      with Cons.IH(4) [OF _ _ _ _ b] 4 show ?thesis by blast
    qed
  }
qed

lemma count_two_keys:
  assumes "distinct ks" "a \<in> set ks" "b \<in> set ks"
  shows "length (filter (\<lambda>k. k = a \<or> k = b) ks) = (if a = b then 1 else 2)"
proof -
  have "length (filter (\<lambda>k. k = a \<or> k = b) ks) = card ({k. k = a \<or> k = b} \<inter> set ks)"
    by (rule distinct_length_filter [OF assms(1)])
  also have "{k. k = a \<or> k = b} \<inter> set ks = {a, b}"
    using assms(2,3) by auto
  also have "card {a, b} = (if a = b then 1 else 2)" by simp
  finally show ?thesis .
qed

section \<open>Slugify twice\<close>

text \<open>
  C6, as amended. \<open>_slugify\<close> is idempotent on every string whose alphanumeric
  characters have a lower case made of alphanumeric characters that are their own lower
  case, which every ASCII string is: slugifying the slug gives the slug back, the
  fallback \<open>section\<close> included.
\<close>

theorem slugify_idempotent:
  assumes "ascii_exact py" and "\<forall>c\<in>set s. lower_stable py c"
  shows "slugify py (slugify py s) = slugify py s"
proof -
  let ?k = "collapse (keep_chars py s)"
  let ?r = "strip_chars (lit ''-'') ?k"
  show ?thesis
  proof (cases "?r = []")
    case True
    then have "slugify py s = lit ''section''"
      by (simp add: slugify_def)
    then show ?thesis using slugify_section [OF assms(1)] by simp
  next
    case False
    then have s: "slugify py s = ?r"
      by (simp add: slugify_def Let_def)
    have "set ?r \<subseteq> set (keep_chars py s)"
      using strip_chars_set set_collapse by (meson subset_trans)
    then have sc: "\<forall>d\<in>set ?r. slug_char py d"
      using keep_chars_slug_char [OF assms(2)] by blast
    have k: "keep_chars py ?r = ?r"
      by (rule keep_chars_id [OF ascii_exact_hyphen [OF assms(1)] sc])
    have "\<not> contains (lit ''--'') ?r"
      by (rule strip_chars_no_sub) (rule collapse_no_dd)
    then have c: "collapse ?r = ?r" by (rule collapse_id)
    have e: "strip_chars (lit ''-'') ?r = ?r"
    proof (rule strip_chars_id)
      show "?r \<noteq> []" by (rule False)
      show "hd ?r \<notin> set (lit ''-'')" by (rule strip_chars_ends(1) [OF False])
      show "last ?r \<notin> set (lit ''-'')" by (rule strip_chars_ends(2) [OF False])
    qed
    have "slugify py ?r = ?r"
      unfolding slugify_def k c e using False by (simp add: Let_def)
    with s show ?thesis by simp
  qed
qed


theorem slugify_idempotent_witness:
  "ascii_exact cpy \<and> list_all (lower_stable cpy) (lit ''Core Data/NS_Object'') \<and>
   slugify cpy (slugify cpy (lit ''Core Data/NS_Object'')) = slugify cpy (lit ''Core Data/NS_Object'')"
proof -
  have a: "ascii_exact cpy"
    by (simp add: ascii_exact_def cpy_def cpy_isalnum_def cpy_lower_def)
  have b: "\<forall>c\<in>set (lit ''Core Data/NS_Object''). lower_stable cpy c"
    by (simp add: lower_stable_def cpy_def cpy_isalnum_def cpy_lower_def ascii_alnum_def
        ascii_lower_def)
  from b have c: "list_all (lower_stable cpy) (lit ''Core Data/NS_Object'')"
    by (simp only: list_all_iff)
  from a c slugify_idempotent [OF a b] show ?thesis by simp
qed

text \<open>
  C6 as stated fails: the slug of the capital I with a dot above is \<open>i\<close> followed by
  the combining dot, which is not alphanumeric, so the slug of that slug is \<open>i\<close>.
\<close>

theorem slugify_idempotent_counterexample:
  "slugify cpy (slugify cpy [304]) \<noteq> slugify cpy [304]"
  by (simp add: slugify_def cpy_def cpy_isalnum_def cpy_lower_def ascii_alnum_def
      ascii_lower_def collapse.simps strip_chars_def lstrip_chars_def rstrip_chars_def
      startswith_def)

section \<open>Front matter that makes the parsers raise\<close>

text \<open>
  C1. The claim is that no sequence of lines makes the front-matter parsers raise. On a
  \<open>key: value\<close> line with a scalar value followed by an indented \<open>- item\<close> line
  both \<open>_parse_front_matter\<close> and \<open>_parse_front_matter_stream\<close> raise
  \<open>AttributeError\<close>, whatever the interpreter makes of \<open>int("Demo")\<close>: the value
  stored under the key has no \<open>append\<close>.
\<close>

theorem front_matter_raises:
  "docindex_parse_front_matter py [lit ''---'', lit ''title: Demo'', lit ''  - item'']
     = Inl AttributeError \<and>
   parse_front_matter_stream py [lit ''---'' @ [10], lit ''title: Demo'' @ [10], lit ''  - item'' @ [10]]
     = Inl AttributeError"
proof
  show "docindex_parse_front_matter py [lit ''---'', lit ''title: Demo'', lit ''  - item'']
     = Inl AttributeError"
    by (simp add: docindex_parse_front_matter_def str_defs convert_def setdefault_append_def
        dict_get_def Let_def split: option.split)
  show "parse_front_matter_stream py [lit ''---'' @ [10], lit ''title: Demo'' @ [10], lit ''  - item'' @ [10]]
     = Inl AttributeError"
    by (simp add: parse_front_matter_stream_def stream_step_def top_level_def init_state_def
        indent_of_def str_defs setdefault_append_def
        dict_get_def Let_def split: option.split)
qed

section \<open>A list item after a key with a value\<close>

text \<open>
  C2, as amended. In \<open>_parse_front_matter\<close>, a \<open>key: value\<close> line with a non-empty
  key makes that key the current key whatever the value; when the value is \<open>[]\<close> or
  \<open>null\<close>, which the parser stores as an empty sequence, a following line of two
  spaces and \<open>- item\<close> appends the trimmed item to the sequence of that same key.
\<close>

theorem list_item_after_key:
  assumes kl: "raw = rstrip_chars [10] kline" "strip raw \<noteq> lit ''---''"
      "\<not> (startswith raw (lit ''  - '') \<and> truthy cur)" "58 \<in> set raw"
    and key: "key = strip (fst (split_colon raw))" "key \<noteq> []"
    and v: "strip (snd (split_colon raw)) = lit ''[]'' \<or> strip (snd (split_colon raw)) = lit ''null''"
    and il: "strip (rstrip_chars [10] iline) \<noteq> lit ''---''"
      "startswith (rstrip_chars [10] iline) (lit ''  - '')"
  shows "fm_loop py data cur idx (kline # iline # rest) =
         fm_loop py (dict_set data key (VList [strip (drop 4 (rstrip_chars [10] iline))]))
           (Some key) (idx + 2) rest"
proof -
  have c: "convert py (strip (snd (split_colon raw))) = VList []"
    using v by (auto simp: convert_def)
  have 1: "fm_loop py data cur idx (kline # iline # rest) =
        fm_loop py (dict_set data key (VList [])) (Some key) (idx + 1) (iline # rest)"
    using fm_loop_key_line [OF kl, of py data idx "iline # rest"] key(1) c by simp
  have 2: "setdefault_append (dict_set data key (VList [])) key x
      = Inr (dict_set data key (VList [x]))" for x
    by (simp add: setdefault_append_def dict_get_set dict_set_set)
  have 3: "fm_loop py (dict_set data key (VList [])) (Some key) (idx + 1) (iline # rest) =
      fm_loop py (dict_set data key (VList [strip (drop 4 (rstrip_chars [10] iline))]))
           (Some key) (idx + 2) rest"
    using fm_loop_item_line [OF refl il key(2), of py "dict_set data key (VList [])" "idx + 1" rest]
    by (simp add: 2)
  from 1 3 show ?thesis by simp
qed

theorem list_item_after_key_witness:
  "fm_loop cpy [] None 1 [lit ''key_sections: []'', lit ''  - Overview '', lit ''---'']
     = Inr ([(lit ''key_sections'', VList [lit ''Overview''])], 4)"
proof -
  have "fm_loop cpy [] None 1 [lit ''key_sections: []'', lit ''  - Overview '', lit ''---''] =
      fm_loop cpy (dict_set [] (lit ''key_sections'')
          (VList [strip (drop 4 (rstrip_chars [10] (lit ''  - Overview '')))]))
        (Some (lit ''key_sections'')) (1 + 2) [lit ''---'']"
    by (rule list_item_after_key [where raw = "lit ''key_sections: []''"])
      (simp_all add: str_defs)
  then show ?thesis by (simp add: str_defs)
qed

text \<open>
  C2 as stated fails: after a string or an integer is stored under the key, the item line
  does not extend the value, the parse raises \<open>AttributeError\<close>.
\<close>

theorem scalar_list_item_counterexample:
  "docindex_parse_front_matter cpy [lit ''---'', lit ''title: Demo'', lit ''  - item'']
     = Inl AttributeError \<and>
   docindex_parse_front_matter cpy [lit ''---'', lit ''doc_count: 3'', lit ''  - item'']
     = Inl AttributeError"
  by (simp add: docindex_parse_front_matter_def str_defs convert_def setdefault_append_def
        dict_get_def Let_def cpy_def cpy_to_int_def int_unsigned_def is_digit_def)

section \<open>Key sections read and written back\<close>

text \<open>
  C3, as amended. For a header made of \<open>key: value\<close> lines followed by the
  \<open>key_sections:\<close> line and at most twenty item lines, each two spaces, \<open>- \<close> and
  a trimmed item that is not empty, \<open>parse_front_matter\<close> gives the items as the
  sequence under \<open>key_sections\<close>, in order, and \<open>build_front_matter\<close> writes them
  back as the very same lines between \<open>key_sections:\<close> and \<open>sanitizer:\<close>.
\<close>

theorem key_sections_round_trip:
  assumes "strip op = lit ''---''" "strip cl = lit ''---''"
    and "\<forall>l\<in>set pre. 58 \<in> set l \<and> \<not> startswith (strip l) (lit ''- '')"
    and "\<forall>x\<in>set xs. x \<noteq> [] \<and> strip x = x"
    and "length xs \<le> 20"
  shows "\<exists>meta.
           sanitize_parse_front_matter
             (op # pre @ lit ''key_sections:'' # map (\<lambda>x. lit ''  - '' @ x) xs @ cl # body)
             = Inr (meta, body) \<and>
           dict_get meta (lit ''key_sections'') = Some (VList xs) \<and>
           build_front_matter py now meta xs toc_depth stopwords =
             header_head py meta xs
             @ lit ''key_sections:'' # map (\<lambda>x. lit ''  - '' @ x) xs
             @ lit ''sanitizer:'' # header_tail py now toc_depth stopwords"
proof -
  let ?items = "map (\<lambda>x. lit ''  - '' @ x) xs"
  have nf: "\<forall>l\<in>set pre. strip l \<noteq> lit ''---''"
    using assms(3) colon_line_not_fence by blast
  obtain d k where pre: "san_loop [] None (pre @ lit ''key_sections:'' # ?items)
      = san_loop d k (lit ''key_sections:'' # ?items)"
    using san_loop_key_lines [OF assms(3)] by blast
  let ?meta = "dict_set d (lit ''key_sections'') (VList xs)"
  have p: "sanitize_parse_front_matter (op # pre @ lit ''key_sections:'' # ?items @ cl # body)
      = Inr (?meta, body)"
    by (rule parse_key_sections_block [OF assms(1,2) nf pre assms(4)])
  have g: "dict_get ?meta (lit ''key_sections'') = Some (VList xs)"
    by (rule dict_get_set)
  have b: "build_front_matter py now ?meta xs toc_depth stopwords =
             header_head py ?meta xs
             @ lit ''key_sections:'' # map (\<lambda>x. lit ''  - '' @ x) xs
             @ lit ''sanitizer:'' # header_tail py now toc_depth stopwords"
    using assms(5) by (simp add: build_front_matter_parts)
  from p g b show ?thesis
    by (intro exI [of _ ?meta]) (simp only: simp_thms)
qed

theorem key_sections_round_trip_witness:
  "\<exists>meta.
     sanitize_parse_front_matter
       (lit ''---'' # [lit ''title: Widget'', lit ''doc_count: 3''] @ lit ''key_sections:''
          # map (\<lambda>x. lit ''  - '' @ x) [lit ''Widgets'', lit ''Gadgets''] @ lit ''---''
          # [lit ''# Widget''])
       = Inr (meta, [lit ''# Widget'']) \<and>
     dict_get meta (lit ''key_sections'') = Some (VList [lit ''Widgets'', lit ''Gadgets'']) \<and>
     build_front_matter cpy (lit ''now'') meta [lit ''Widgets'', lit ''Gadgets''] 2 {} =
       header_head cpy meta [lit ''Widgets'', lit ''Gadgets'']
       @ lit ''key_sections:'' # map (\<lambda>x. lit ''  - '' @ x) [lit ''Widgets'', lit ''Gadgets'']
       @ lit ''sanitizer:'' # header_tail cpy (lit ''now'') 2 {}"
proof (rule key_sections_round_trip)
  show "strip (lit ''---'') = lit ''---''" by (simp add: str_defs)
  show "strip (lit ''---'') = lit ''---''" by (simp add: str_defs)
  show "\<forall>l\<in>set [lit ''title: Widget'', lit ''doc_count: 3''].
      58 \<in> set l \<and> \<not> startswith (strip l) (lit ''- '')"
    by (simp add: str_defs)
  show "\<forall>x\<in>set [lit ''Widgets'', lit ''Gadgets'']. x \<noteq> [] \<and> strip x = x"
    by (simp add: str_defs)
  show "length [lit ''Widgets'', lit ''Gadgets''] \<le> 20" by simp
qed

text \<open>
  C3 as stated fails on a longer list: of twenty-one key sections \<open>build_front_matter\<close>
  writes the first twenty (\<open>key_sections[:20]\<close>).
\<close>

theorem key_sections_round_trip_counterexample:
  "sanitize_parse_front_matter example_long_doc
     = Inr ([(lit ''key_sections'', VList example_sections21)], []) \<and>
   length example_sections21 = 21 \<and>
   build_front_matter cpy (lit ''now'') [(lit ''key_sections'', VList example_sections21)]
       example_sections21 2 {} =
     [lit ''---'', lit ''summary: A, B, C, D, E, F'', lit ''key_sections:'']
     @ map (\<lambda>x. lit ''  - '' @ x) (take 20 example_sections21)
     @ [lit ''sanitizer:'', lit ''  generated_at: now'', lit ''  toc_depth: 2'',
        lit ''  stopwords:'', lit ''---''] \<and>
   take 20 example_sections21 \<noteq> example_sections21"
proof (intro conjI)
  show "sanitize_parse_front_matter example_long_doc
     = Inr ([(lit ''key_sections'', VList example_sections21)], [])"
  proof -
    have w: "\<forall>x\<in>set example_sections21. x \<noteq> [] \<and> strip x = x"
      by (simp add: example_sections21_def str_defs)
    have f: "strip (lit ''---'') = lit ''---''" by (simp add: str_defs)
    have "sanitize_parse_front_matter
        (lit ''---'' # [] @ lit ''key_sections:'' # map (\<lambda>x. lit ''  - '' @ x) example_sections21
           @ lit ''---'' # [])
        = Inr (dict_set [] (lit ''key_sections'') (VList example_sections21), [])"
      by (rule parse_key_sections_block [OF f f _ _ w]) simp_all
    then show ?thesis by (simp add: example_long_doc_def)
  qed
  show "length example_sections21 = 21" by (simp add: example_sections21_def)
  show "build_front_matter cpy (lit ''now'') [(lit ''key_sections'', VList example_sections21)]
       example_sections21 2 {} =
     [lit ''---'', lit ''summary: A, B, C, D, E, F'', lit ''key_sections:'']
     @ map (\<lambda>x. lit ''  - '' @ x) (take 20 example_sections21)
     @ [lit ''sanitizer:'', lit ''  generated_at: now'', lit ''  toc_depth: 2'',
        lit ''  stopwords:'', lit ''---'']"
    by (simp add: build_front_matter_def emit_def dict_get_def py_str_def cpy_def
        digits_of.simps example_sections21_def)
  show "take 20 example_sections21 \<noteq> example_sections21"
    by (simp add: example_sections21_def)
qed

section \<open>The line budget of the TOC scanner\<close>

text \<open>
  C4. With a positive \<open>max_lines\<close>, when that many lines have been scanned without the
  block ending, \<open>_read_toc_block\<close> stops: it flags truncation exactly when a line lies
  beyond the budget, and it returns the lines collected among the scanned ones only,
  nothing when the title line was not among them, else the title line and the
  lines after it that are not blank. On the twenty lines of the example with
  \<open>max_lines = 5\<close> the flag is set and the block is the title and the one line that is
  not blank among lines 4 and 5.
\<close>

theorem read_toc_block_truncates:
  assumes "0 < max_lines" and "carry @ fh = scanned @ beyond"
    and "int (length scanned) = max_lines"
  shows "((\<forall>l\<in>set scanned. strip l \<noteq> toc_title) \<longrightarrow>
            read_toc_block fh carry max_lines = ([], beyond \<noteq> [])) \<and>
         (\<forall>pre h block.
            scanned = pre @ h # block \<and> (\<forall>l\<in>set pre. strip l \<noteq> toc_title) \<and>
            strip h = toc_title \<and>
            (\<forall>l\<in>set block. \<not> (startswith (strip l) (lit ''## '') \<and> strip l \<noteq> toc_title))
            \<longrightarrow> read_toc_block fh carry max_lines =
                  (toc_title # map (rstrip_chars [10]) (filter (\<lambda>l. strip l \<noteq> []) block),
                   beyond \<noteq> []))"
proof (intro conjI impI allI)
  assume "\<forall>l\<in>set scanned. strip l \<noteq> toc_title"
  then have "toc_loop max_lines [] False 0 (scanned @ beyond)
      = toc_loop max_lines [] False (0 + length scanned) beyond"
    using assms(3) by (intro toc_loop_before) auto
  also have "\<dots> = ([], beyond \<noteq> [])"
    using assms by (intro toc_loop_stop) auto
  finally show "read_toc_block fh carry max_lines = ([], beyond \<noteq> [])"
    by (simp add: read_toc_block_def assms(2))
next
  fix pre h block
  assume a: "scanned = pre @ h # block \<and> (\<forall>l\<in>set pre. strip l \<noteq> toc_title) \<and>
            strip h = toc_title \<and>
            (\<forall>l\<in>set block. \<not> (startswith (strip l) (lit ''## '') \<and> strip l \<noteq> toc_title))"
  let ?out = "map (rstrip_chars [10]) (filter (\<lambda>l. strip l \<noteq> []) block)"
  have len: "int (length pre + 1 + length block) = max_lines"
    using a assms(3) by simp
  have "toc_loop max_lines [] False 0 (pre @ h # block @ beyond)
      = toc_loop max_lines [] False (0 + length pre) (h # block @ beyond)"
    using a len by (intro toc_loop_before) auto
  also have "\<dots> = toc_loop max_lines ([] @ [toc_title]) True (0 + length pre + 1) (block @ beyond)"
    using a len by (intro toc_loop_title) auto
  also have "\<dots> = toc_loop max_lines (([] @ [toc_title]) @ ?out) True
       (0 + length pre + 1 + length block) beyond"
    using a len by (intro toc_loop_block) auto
  also have "\<dots> = (([] @ [toc_title]) @ ?out, beyond \<noteq> [])"
    using assms len by (intro toc_loop_stop) auto
  finally show "read_toc_block fh carry max_lines = (toc_title # ?out, beyond \<noteq> [])"
    using a by (simp add: read_toc_block_def assms(2))
qed

theorem read_toc_block_truncates_witness:
  "length example_toc_lines = 20 \<and>
   read_toc_block example_toc_lines [] 5 =
     ([lit ''## Table of Contents'', lit ''- [Overview](#overview)''], True)"
proof -
  let ?scanned = "[lit ''# Widget'' @ [10], [10], lit ''## Table of Contents'' @ [10],
      lit ''- [Overview](#overview)'' @ [10], [10]]"
  let ?beyond = "replicate 15 (lit ''- [Details](#details)'' @ [10])"
  have 1: "[] @ example_toc_lines = ?scanned @ ?beyond"
    by (simp add: example_toc_lines_def)
  have 2: "int (length ?scanned) = 5" by simp
  have 3: "?scanned = [lit ''# Widget'' @ [10], [10]] @ (lit ''## Table of Contents'' @ [10])
        # [lit ''- [Overview](#overview)'' @ [10], [10]] \<and>
      (\<forall>l\<in>set [lit ''# Widget'' @ [10], [10]]. strip l \<noteq> toc_title) \<and>
      strip (lit ''## Table of Contents'' @ [10]) = toc_title \<and>
      (\<forall>l\<in>set [lit ''- [Overview](#overview)'' @ [10], [10]].
          \<not> (startswith (strip l) (lit ''## '') \<and> strip l \<noteq> toc_title))"
    by (simp add: toc_title_def strip_def lstrip_def rstrip_def isspace_def startswith_def)
  have pos: "(0::int) < 5" by simp
  note conjunct2 [OF read_toc_block_truncates [OF pos 1 2], rule_format, OF 3]
  then show ?thesis
    by (simp add: example_toc_lines_def toc_title_def strip_def lstrip_def rstrip_def
        isspace_def rstrip_chars_def)
qed

section \<open>Anchor markers and headings\<close>

text \<open>
  C5. An anchor marker gives its anchor to the next heading line after it and to no other:
  with no heading and no marker between the marker and the heading, the heading takes
  the marker's anchor; every heading after that one, up to the next marker, takes the slug
  of its own text.
\<close>

theorem anchor_binds_next_heading_only:
  assumes m: "match_anchor (strip marker) = Some X"
    and g1: "\<forall>l\<in>set gap1. match_anchor (strip l) = None \<and> heading_of l = None"
    and h1: "heading_of h1 = Some (t1, l1)"
    and g2: "\<forall>l\<in>set gap2. match_anchor (strip l) = None"
    and h2: "heading_of h2 = Some (t2, l2)"
  shows "collect_headings py (pre @ marker # gap1 @ h1 # gap2 @ h2 # post) 0 =
           collect_headings py pre 0
           @ [\<lparr>text = t1, anchor = X, level = min l1 6\<rparr>]
           @ collect_headings py gap2 0
           @ [\<lparr>text = t2, anchor = slugify py t2, level = min l2 6\<rparr>]
           @ collect_headings py post 0 \<and>
         (\<forall>h\<in>set (collect_headings py gap2 0). anchor h = slugify py (text h))"
proof -
  let ?R = "foldl (heading_step py)"
  let ?H1 = "\<lparr>text = t1, anchor = X, level = min l1 6\<rparr>"
  let ?H2 = "\<lparr>text = t2, anchor = slugify py t2, level = min l2 6\<rparr>"
  obtain hs p where pre: "?R ([], None) pre = (hs, p)" by (cases "?R ([], None) pre")
  then have cp: "collect_headings py pre 0 = hs" by (simp add: collect_headings_def)
  have a: "?R (hs, p) [marker] = (hs, Some X)"
    using m by (simp add: heading_step_marker)
  have b: "?R (hs, Some X) gap1 = (hs, Some X)"
    by (rule run_other [OF g1])
  have c: "?R (hs, Some X) [h1] = (hs @ [?H1], None)"
    using h1 match_anchor_nonempty [OF m] by (simp add: heading_step_heading anchor_or_slug_def)
  have g: "snd (?R ([], None) gap2) = None"
    "\<forall>h\<in>set (fst (?R ([], None) gap2)). anchor h = slugify py (text h)"
    using run_no_marker [OF g2, of py "[]"] by simp_all
  have d: "?R (hs @ [?H1], None) gap2 = (hs @ [?H1] @ collect_headings py gap2 0, None)"
    using run_shift [of py "hs @ [?H1]" None gap2] g(1) by (simp add: collect_headings_def)
  have e: "?R (hs @ [?H1] @ collect_headings py gap2 0, None) [h2]
      = (hs @ [?H1] @ collect_headings py gap2 0 @ [?H2], None)"
    using h2 by (simp add: heading_step_heading anchor_or_slug_def)
  have f: "?R (hs @ [?H1] @ collect_headings py gap2 0 @ [?H2], None) post
      = (hs @ [?H1] @ collect_headings py gap2 0 @ [?H2] @ collect_headings py post 0,
         snd (?R ([], None) post))"
    using run_shift [of py "hs @ [?H1] @ collect_headings py gap2 0 @ [?H2]" None post]
    by (simp add: collect_headings_def)
  have "?R ([], None) (pre @ [marker] @ gap1 @ [h1] @ gap2 @ [h2] @ post)
      = (hs @ [?H1] @ collect_headings py gap2 0 @ [?H2] @ collect_headings py post 0,
         snd (?R ([], None) post))"
    unfolding foldl_append pre a b c d e f ..
  then have "collect_headings py (pre @ marker # gap1 @ h1 # gap2 @ h2 # post) 0
      = hs @ [?H1] @ collect_headings py gap2 0 @ [?H2] @ collect_headings py post 0"
    by (simp add: collect_headings_def)
  with cp g(2) show ?thesis by (simp add: collect_headings_def)
qed

theorem anchor_binds_next_heading_only_witness:
  "collect_headings cpy
     ([] @ example_marker # [[]] @ lit ''## Overview'' # [lit ''Some text.'']
        @ lit ''### More Detail'' # [lit ''#### Deep/Dive'']) 0 =
   [\<lparr>text = lit ''Overview'', anchor = lit ''intro'', level = 2\<rparr>,
    \<lparr>text = lit ''More Detail'', anchor = lit ''moredetail'', level = 3\<rparr>,
    \<lparr>text = lit ''Deep/Dive'', anchor = lit ''deep-dive'', level = 4\<rparr>]"
proof -
  have m: "match_anchor (strip example_marker) = Some (lit ''intro'')"
    by (simp add: example_marker_def match_anchor_def str_defs)
  have g1: "\<forall>l\<in>set [[]]. match_anchor (strip l) = None \<and> heading_of l = None"
    by (simp add: heading_of_def match_anchor_def str_defs)
  have h1: "heading_of (lit ''## Overview'') = Some (lit ''Overview'', 2)"
    by (simp add: heading_of_def match_anchor_def str_defs)
  have g2: "\<forall>l\<in>set [lit ''Some text.'']. match_anchor (strip l) = None"
    by (simp add: match_anchor_def str_defs)
  have h2: "heading_of (lit ''### More Detail'') = Some (lit ''More Detail'', 3)"
    by (simp add: heading_of_def match_anchor_def str_defs)
  have s2: "slugify cpy (lit ''More Detail'') = lit ''moredetail''"
    by (simp add: slugify_def collapse.simps str_defs cpy_defs)
  have e: "collect_headings cpy [] 0 = []" "collect_headings cpy [lit ''Some text.''] 0 = []"
    by (simp_all add: collect_headings_def heading_step_def match_anchor_def str_defs)
  have p: "collect_headings cpy [lit ''#### Deep/Dive''] 0 =
      [\<lparr>text = lit ''Deep/Dive'', anchor = lit ''deep-dive'', level = 4\<rparr>]"
    by (simp add: collect_headings_def heading_step_def match_anchor_def anchor_or_slug_def
        slugify_def collapse.simps str_defs cpy_defs)
  from anchor_binds_next_heading_only [OF m g1 h1 g2 h2, of cpy "[]" "[lit ''#### Deep/Dive'']"]
  show ?thesis unfolding s2 e p by simp
qed

section \<open>A term in a heading and in a key section\<close>

text \<open>
  C7. When the search returns and the term occurs, whatever the case, in the text of a
  heading and in a key section of the same entry, the result lines are in step with the
  keys seen, each line ending with its key \<open>path#anchor\<close> and no key twice, and the
  keys of the heading and of the key section account for two result lines when the
  anchor of the heading differs from the slug of the key section, for one when they are
  equal.
\<close>

theorem search_heading_and_section:
  assumes "search_loop py (lower py term) ([], []) (entries idx) = Inr (results, seen)"
    and "e \<in> set (entries idx)"
    and "h \<in> set (headings e)" "contains (lower py term) (lower py (text h))"
    and "iterate (key_sections e) = Inr secs" "s \<in> set secs"
        "contains (lower py term) (lower py s)"
  shows "search_entries py idx term = Inr results \<and>
         distinct seen \<and> list_all2 (\<lambda>r k. \<exists>t. r = t @ k) results seen \<and>
         length (filter (\<lambda>k. k = seen_key (path e) (anchor h) \<or>
                              k = seen_key (path e) (slugify py s)) seen)
           = (if anchor h = slugify py s then 1 else 2)"
proof -
  have r: "search_entries py idx term = Inr results"
    using assms(1) by (simp add: search_entries_def)
  have "aligned ([], [])" by (simp add: aligned_def)
  from search_loop_facts(2) [OF assms(1) this]
  have al: "distinct seen" "list_all2 (\<lambda>r k. \<exists>t. r = t @ k) results seen"
    by (simp_all add: aligned_def)
  have k1: "seen_key (path e) (anchor h) \<in> set seen"
    using search_loop_facts(3) [OF assms(1) assms(2,3,4)] by simp
  have k2: "seen_key (path e) (slugify py s) \<in> set seen"
    using search_loop_facts(4) [OF assms(1) assms(2,5,6,7)] by simp
  have "seen_key (path e) (anchor h) = seen_key (path e) (slugify py s) \<longleftrightarrow>
      anchor h = slugify py s"
    by (simp add: seen_key_def)
  with count_two_keys [OF al(1) k1 k2] r al show ?thesis by simp
qed

theorem search_heading_and_section_witness:
  "search_entries cpy (example_search_index (lit ''demo-section'')) (lit ''demo'') =
     Inr [lit ''Demo: Demo Section '' @ [8212] @ lit '' docs/demo.md#demo-section'',
          lit ''Demo: Demo Section '' @ [8212] @ lit '' docs/demo.md#demosection''] \<and>
   search_entries cpy (example_search_index (lit ''demosection'')) (lit ''demo'') =
     Inr [lit ''Demo: Demo Section '' @ [8212] @ lit '' docs/demo.md#demosection'']"
proof
  let ?h = "\<lambda>a. \<lparr>text = lit ''Demo Section'', anchor = a, level = 2\<rparr>"
  have c: "contains (lower cpy (lit ''demo'')) (lower cpy (lit ''Demo Section''))"
    by (simp add: cpy_defs startswith_def)
  have it: "iterate (key_sections (example_entry a)) = Inr [lit ''Demo Section'']" for a
    by (simp add: example_entry_def iterate_def)
  have hd: "?h a \<in> set (headings (example_entry a))" for a
    by (simp add: example_entry_def)
  have en: "example_entry a \<in> set (entries (example_search_index a))" for a
    by (simp add: example_search_index_def)
  have tx: "text (?h a) = lit ''Demo Section''" for a by simp
  have two: "search_loop cpy (lower cpy (lit ''demo'')) ([], [])
      (entries (example_search_index (lit ''demo-section''))) =
    Inr ([lit ''Demo: Demo Section '' @ [8212] @ lit '' docs/demo.md#demo-section'',
          lit ''Demo: Demo Section '' @ [8212] @ lit '' docs/demo.md#demosection''],
         [lit ''docs/demo.md#demo-section'', lit ''docs/demo.md#demosection''])"
    by (simp add: search_defs str_defs cpy_defs)
  have one: "search_loop cpy (lower cpy (lit ''demo'')) ([], [])
      (entries (example_search_index (lit ''demosection''))) =
    Inr ([lit ''Demo: Demo Section '' @ [8212] @ lit '' docs/demo.md#demosection''],
         [lit ''docs/demo.md#demosection''])"
    by (simp add: search_defs str_defs cpy_defs)
  from search_heading_and_section [OF two en hd _ it, of "lit ''Demo Section''"] c
  show "search_entries cpy (example_search_index (lit ''demo-section'')) (lit ''demo'') =
     Inr [lit ''Demo: Demo Section '' @ [8212] @ lit '' docs/demo.md#demo-section'',
          lit ''Demo: Demo Section '' @ [8212] @ lit '' docs/demo.md#demosection'']"
    by simp
  from search_heading_and_section [OF one en hd _ it, of "lit ''Demo Section''"] c
  show "search_entries cpy (example_search_index (lit ''demosection'')) (lit ''demo'') =
     Inr [lit ''Demo: Demo Section '' @ [8212] @ lit '' docs/demo.md#demosection'']"
    by simp
qed

section \<open>The entries of the index\<close>

text \<open>
  C8. \<open>build_index\<close> skips a file without front matter: the file raises no error and
  the index is the one built without it. Every entry of the index comes from a file whose
  front matter was parsed, and a key the front matter lacks takes its default there: the
  stem of the file name for \<open>title\<close>, 0 for \<open>doc_count\<close> and \<open>file_size\<close>, the
  empty sequence for \<open>key_sections\<close>.
\<close>

theorem build_index_skips_and_defaults:
  "(no_front_matter (md_lines f) \<longrightarrow>
      index_entry py f = Inr None \<and>
      build_index py now root (fs1 @ f # fs2) = build_index py now root (fs1 @ fs2)) \<and>
   (build_index py now root fs = Inr idx \<longrightarrow>
      (\<forall>e\<in>set (entries idx). \<exists>g\<in>set fs. \<exists>fm offset.
          docindex_parse_front_matter py (md_lines g) = Inr (Some fm, offset) \<and>
          (dict_get fm (lit ''title'') = None \<longrightarrow> title e = VStr (stem g)) \<and>
          (dict_get fm (lit ''doc_count'') = None \<longrightarrow> doc_count e = VInt 0) \<and>
          (dict_get fm (lit ''file_size'') = None \<longrightarrow> file_size e = VInt 0) \<and>
          (dict_get fm (lit ''key_sections'') = None \<longrightarrow> key_sections e = VList [])))"
proof (intro conjI impI)
  assume "no_front_matter (md_lines f)"
  then show e: "index_entry py f = Inr None" by (rule no_front_matter_entry)
  show "build_index py now root (fs1 @ f # fs2) = build_index py now root (fs1 @ fs2)"
    by (rule build_index_skip [OF e])
next
  assume "build_index py now root fs = Inr idx"
  then have "build_entries py fs = Inr (entries idx)"
    by (auto simp: build_index_def split: sum.splits)
  then have src: "\<forall>e\<in>set (entries idx). \<exists>g\<in>set fs. index_entry py g = Inr (Some e)"
    by (rule build_entries_sources)
  show "\<forall>e\<in>set (entries idx). \<exists>g\<in>set fs. \<exists>fm offset.
          docindex_parse_front_matter py (md_lines g) = Inr (Some fm, offset) \<and>
          (dict_get fm (lit ''title'') = None \<longrightarrow> title e = VStr (stem g)) \<and>
          (dict_get fm (lit ''doc_count'') = None \<longrightarrow> doc_count e = VInt 0) \<and>
          (dict_get fm (lit ''file_size'') = None \<longrightarrow> file_size e = VInt 0) \<and>
          (dict_get fm (lit ''key_sections'') = None \<longrightarrow> key_sections e = VList [])"
  proof
    fix e assume "e \<in> set (entries idx)"
    with src obtain g where g: "g \<in> set fs" "index_entry py g = Inr (Some e)" by blast
    from index_entry_Some [OF g(2)] obtain fm offset where
      "docindex_parse_front_matter py (md_lines g) = Inr (Some fm, offset)"
      "title e = get_default fm (lit ''title'') (VStr (stem g))"
      "doc_count e = get_default fm (lit ''doc_count'') (VInt 0)"
      "file_size e = get_default fm (lit ''file_size'') (VInt 0)"
      "key_sections e = get_default fm (lit ''key_sections'') (VList [])"
      by blast
    then have "docindex_parse_front_matter py (md_lines g) = Inr (Some fm, offset) \<and>
          (dict_get fm (lit ''title'') = None \<longrightarrow> title e = VStr (stem g)) \<and>
          (dict_get fm (lit ''doc_count'') = None \<longrightarrow> doc_count e = VInt 0) \<and>
          (dict_get fm (lit ''file_size'') = None \<longrightarrow> file_size e = VInt 0) \<and>
          (dict_get fm (lit ''key_sections'') = None \<longrightarrow> key_sections e = VList [])"
      by (simp add: get_default_def)
    with g(1) show "\<exists>g\<in>set fs. \<exists>fm offset.
          docindex_parse_front_matter py (md_lines g) = Inr (Some fm, offset) \<and>
          (dict_get fm (lit ''title'') = None \<longrightarrow> title e = VStr (stem g)) \<and>
          (dict_get fm (lit ''doc_count'') = None \<longrightarrow> doc_count e = VInt 0) \<and>
          (dict_get fm (lit ''file_size'') = None \<longrightarrow> file_size e = VInt 0) \<and>
          (dict_get fm (lit ''key_sections'') = None \<longrightarrow> key_sections e = VList [])"
      by (intro bexI [of _ g] exI [of _ fm] exI [of _ offset])
  qed
qed

theorem build_index_skips_and_defaults_witness:
  "no_front_matter (md_lines example_plain) \<and>
   index_entry cpy example_plain = Inr None \<and>
   build_index cpy (lit ''now'') (lit ''docs'') ([] @ example_plain # [example_widget])
     = build_index cpy (lit ''now'') (lit ''docs'') ([] @ [example_widget]) \<and>
   build_index cpy (lit ''now'') (lit ''docs'') [example_widget] = Inr example_index \<and>
   list_all (\<lambda>e. title e = VStr (lit ''widget'') \<and> doc_count e = VInt 0 \<and> file_size e = VInt 0 \<and>
        key_sections e = VList []) (entries example_index)"
proof -
  have 1: "no_front_matter (md_lines example_plain)"
    by (simp add: no_front_matter_def example_plain_def str_defs)
  have 2: "build_index cpy (lit ''now'') (lit ''docs'') [example_widget] = Inr example_index"
    by (simp add: build_index_def index_entry_def docindex_parse_front_matter_def
        example_widget_def example_index_def str_defs cpy_defs convert_def
        collect_headings_def heading_step_def match_anchor_def anchor_or_slug_def
        slugify_def collapse.simps get_default_def dict_get_def Let_def)
  have 3: "list_all (\<lambda>e. title e = VStr (lit ''widget'') \<and> doc_count e = VInt 0 \<and> file_size e = VInt 0 \<and>
        key_sections e = VList []) (entries example_index)"
    by (simp add: example_index_def)
  from 1 2 3 build_index_skips_and_defaults [of example_plain cpy "lit ''now''" "lit ''docs''"
      "[]" "[example_widget]" "[example_widget]" example_index]
  show ?thesis by blast
qed

section \<open>Stop words among the key sections\<close>

text \<open>
  C9. Whatever the set of stop words, hence for the set the command line builds, the
  \<open>key_sections\<close> block of the text \<open>sanitize_file\<close> writes lists the first twenty
  of a sequence of sections none of which, put in lower case, is a stop word or
  \<open>overview\<close>: a key section of the input whose lower case is one of these is not
  written, in whatever case it is spelt.
\<close>

theorem sanitizer_drops_stopwords:
  assumes "sanitize_file py now txt toc_depth stopwords = Inr out"
  shows "\<exists>sections before after.
           out = before @ lit ''key_sections:''
                   # map (\<lambda>s. lit ''  - '' @ s) (take 20 sections) @ lit ''sanitizer:'' # after \<and>
           (\<forall>t\<in>set sections. lower py t \<notin> stopwords \<and> lower py t \<noteq> lit ''overview'')"
proof -
  obtain meta rest0 where p: "sanitize_parse_front_matter txt = Inr (meta, rest0)"
  proof (cases "sanitize_parse_front_matter txt")
    case (Inl e)
    with assms show ?thesis by (simp add: sanitize_file_def)
  next
    case (Inr r)
    then show ?thesis using that by (cases r) simp
  qed
  let ?rest = "trim_toc py toc_depth stopwords rest0"
  let ?ks = "output_key_sections py stopwords meta ?rest"
  from assms p have out: "out = build_front_matter py now meta ?ks toc_depth stopwords @ ?rest"
    by (simp add: sanitize_file_def Let_def)
  have "out = header_head py meta ?ks @ lit ''key_sections:''
      # map (\<lambda>s. lit ''  - '' @ s) (take 20 ?ks)
      @ lit ''sanitizer:'' # (header_tail py now toc_depth stopwords @ ?rest)"
    unfolding out build_front_matter_parts by (simp only: append_assoc append_Cons)
  moreover note output_key_sections_kept [of py stopwords meta ?rest]
  ultimately show ?thesis by (intro exI conjI)
qed

theorem sanitizer_drops_stopwords_witness:
  "sanitize_parse_front_matter example_doc = Inr (example_meta, [lit ''# Widget'']) \<and>
   output_key_sections cpy (main_stopwords cpy []) example_meta [lit ''# Widget'']
     = [lit ''Widgets''] \<and>
   (\<exists>sections before after.
      build_front_matter cpy (lit ''now'') example_meta [lit ''Widgets''] 2 (main_stopwords cpy [])
        @ [lit ''# Widget''] =
      before @ lit ''key_sections:''
        # map (\<lambda>s. lit ''  - '' @ s) (take 20 sections) @ lit ''sanitizer:'' # after \<and>
      (\<forall>t\<in>set sections.
          lower cpy t \<notin> main_stopwords cpy [] \<and> lower cpy t \<noteq> lit ''overview''))"
proof -
  have p: "sanitize_parse_front_matter example_doc = Inr (example_meta, [lit ''# Widget''])"
    by (simp add: sanitize_parse_front_matter_def example_doc_def example_meta_def str_defs
        setdefault_append_def dict_get_def)
  have t: "trim_toc cpy 2 (main_stopwords cpy []) [lit ''# Widget''] = [lit ''# Widget'']"
    by (simp add: trim_toc_def toc_title_def str_defs)
  have k: "output_key_sections cpy (main_stopwords cpy []) example_meta [lit ''# Widget'']
     = [lit ''Widgets'']"
    by (simp add: output_key_sections_def example_meta_def dict_get_def main_stopwords_def
        STOPWORDS_DEFAULT_def cpy_defs)
  have s: "sanitize_file cpy (lit ''now'') example_doc 2 (main_stopwords cpy []) =
      Inr (build_front_matter cpy (lit ''now'') example_meta [lit ''Widgets''] 2
             (main_stopwords cpy []) @ [lit ''# Widget''])"
    using p t k by (simp add: sanitize_file_def Let_def)
  from p k sanitizer_drops_stopwords [OF s] show ?thesis by (intro conjI)
qed

section \<open>A front-matter block without keys\<close>

text \<open>
  C10. A text that opens with \<open>---\<close>, closes the block with \<open>---\<close> and has no
  line with a colon in between parses to the empty mapping, and is treated as a text
  without front matter: \<open>build_index\<close> leaves the file out of the index and
  \<open>peek_markdown\<close> reports \<open>has_front_matter\<close> false.
\<close>

theorem empty_front_matter_block:
  assumes "strip op = lit ''---''" "strip cl = lit ''---''" "\<forall>l\<in>set body. 58 \<notin> set l"
    and "md_lines f = op # body @ cl # rest"
  shows "(\<exists>offset. docindex_parse_front_matter py (md_lines f) = Inr (Some [], offset)) \<and>
         index_entry py f = Inr None \<and>
         build_index py now root (fs1 @ f # fs2) = build_index py now root (fs1 @ fs2) \<and>
         (\<exists>r. peek_markdown py p (Some (op # body @ cl # rest)) include_toc max_lines = Inr r \<and>
              front_matter r = [] \<and> \<not> has_front_matter r)"
proof -
  have "strip (rstrip_chars [10] cl) = lit ''---''"
    using assms(2) by (simp only: strip_rstrip_nl)
  then obtain n where n: "fm_loop py [] None 1 (body @ cl # rest) = Inr ([], n)"
    using fm_loop_no_colon [OF assms(3)] by blast
  then have p: "docindex_parse_front_matter py (md_lines f) = Inr (Some [], n)"
    using assms(1,4) by (simp add: docindex_parse_front_matter_def)
  then have e: "index_entry py f = Inr None"
    by (simp add: index_entry_def)
  obtain s' left where s: "stream_loop py init_state (body @ cl # rest) = Inr (s', left)"
      "fm_data s' = []"
    using stream_loop_no_colon [OF assms(3,2), of init_state py rest]
    by (auto simp: init_state_def)
  then have "\<exists>r. peek_markdown py p (Some (op # body @ cl # rest)) include_toc max_lines = Inr r \<and>
              front_matter r = [] \<and> \<not> has_front_matter r"
    using assms(1) by (simp add: peek_markdown_def parse_front_matter_stream_def Let_def)
  with p e build_index_skip [OF e] show ?thesis by blast
qed


theorem empty_front_matter_block_witness:
  "strip (lit ''---'') = lit ''---'' \<and>
   list_all (\<lambda>l. 58 \<notin> set l) [lit ''no key here'', lit ''  - stray item''] \<and>
   (\<exists>offset. docindex_parse_front_matter cpy
       (md_lines \<lparr>md_path = lit ''docs/a.md'', stem = lit ''a'',
          md_lines = [lit ''---'', lit ''no key here'', lit ''  - stray item'', lit ''---'', lit ''# A'']\<rparr>)
      = Inr (Some [], offset)) \<and>
   index_entry cpy \<lparr>md_path = lit ''docs/a.md'', stem = lit ''a'',
       md_lines = [lit ''---'', lit ''no key here'', lit ''  - stray item'', lit ''---'', lit ''# A'']\<rparr>
     = Inr None \<and>
   build_index cpy (lit ''now'') (lit ''docs'')
      ([] @ \<lparr>md_path = lit ''docs/a.md'', stem = lit ''a'',
          md_lines = [lit ''---'', lit ''no key here'', lit ''  - stray item'', lit ''---'', lit ''# A'']\<rparr> # [])
     = build_index cpy (lit ''now'') (lit ''docs'') ([] @ []) \<and>
   (\<exists>r. peek_markdown cpy (lit ''docs/a.md'')
         (Some (lit ''---'' # [lit ''no key here'', lit ''  - stray item''] @ lit ''---'' # [lit ''# A'']))
         True 800 = Inr r \<and>
        front_matter r = [] \<and> \<not> has_front_matter r)"
proof -
  have 1: "strip (lit ''---'') = lit ''---''"
    by (simp add: strip_def lstrip_def rstrip_def isspace_def)
  have 2: "\<forall>l\<in>set [lit ''no key here'', lit ''  - stray item'']. 58 \<notin> set l"
    by simp
  have 3: "md_lines \<lparr>md_path = lit ''docs/a.md'', stem = lit ''a'',
          md_lines = [lit ''---'', lit ''no key here'', lit ''  - stray item'', lit ''---'', lit ''# A'']\<rparr>
     = lit ''---'' # [lit ''no key here'', lit ''  - stray item''] @ lit ''---'' # [lit ''# A'']"
    by simp
  from 2 have 4: "list_all (\<lambda>l. 58 \<notin> set l) [lit ''no key here'', lit ''  - stray item'']"
    by (simp only: list_all_iff)
  from 1 4 empty_front_matter_block [OF 1 1 2 3, of cpy "lit ''now''" "lit ''docs''" "[]" "[]"
      "lit ''docs/a.md''" True 800]
  show ?thesis by blast
qed

end
